theory Spec2Isabelle
  imports Main
begin

section \<open>Strings\<close>

text \<open>
  A JavaScript string is a sequence of UTF-16 code units. A code unit is modelled as a
  natural number, a string as the list of its code units; \<open>js\<close> turns a literal
  into such a list, so \<open>js ''end''\<close> is the JavaScript string \<^verbatim>\<open>'end'\<close>.
\<close>

type_synonym jsstring = "nat list"

definition js :: "string \<Rightarrow> jsstring" where
  "js s = map of_char s"

text \<open>The regular expressions of the tokenizer, each a class of single code units.\<close>

definition is_space :: "nat \<Rightarrow> bool" where
  \<comment> \<open>\<^verbatim>\<open>/\s/\<close>: the white space and line terminator code units of ECMAScript\<close>
  "is_space c = (c \<in> set [9, 10, 11, 12, 13, 32, 160, 5760, 8232, 8233, 8239, 8287, 12288, 65279]
                 \<or> (8192 \<le> c \<and> c \<le> 8202))"

definition is_digit :: "nat \<Rightarrow> bool" where
  \<comment> \<open>\<^verbatim>\<open>/[0-9]/\<close>\<close>
  "is_digit c = (48 \<le> c \<and> c \<le> 57)"

definition is_alpha :: "nat \<Rightarrow> bool" where
  \<comment> \<open>\<^verbatim>\<open>/[a-zA-Z]/\<close>\<close>
  "is_alpha c = ((97 \<le> c \<and> c \<le> 122) \<or> (65 \<le> c \<and> c \<le> 90))"

definition is_hex_digit :: "nat \<Rightarrow> bool" where
  \<comment> \<open>\<^verbatim>\<open>/[0-9a-fA-F]/\<close>\<close>
  "is_hex_digit c = (is_digit c \<or> (97 \<le> c \<and> c \<le> 102) \<or> (65 \<le> c \<and> c \<le> 70))"

definition is_number_char :: "nat \<Rightarrow> bool" where
  \<comment> \<open>\<^verbatim>\<open>/[0-9.]/\<close>\<close>
  "is_number_char c = (is_digit c \<or> c = 46)"

definition is_unit_char :: "nat \<Rightarrow> bool" where
  \<comment> \<open>\<^verbatim>\<open>/[a-zA-Z%]/\<close>\<close>
  "is_unit_char c = (is_alpha c \<or> c = 37)"

definition is_ident_start :: "nat \<Rightarrow> bool" where
  \<comment> \<open>\<^verbatim>\<open>/[a-zA-Z_]/\<close>\<close>
  "is_ident_start c = (is_alpha c \<or> c = 95)"

definition is_ident_char :: "nat \<Rightarrow> bool" where
  \<comment> \<open>\<^verbatim>\<open>/[a-zA-Z0-9_-]/\<close>\<close>
  "is_ident_char c = (is_alpha c \<or> is_digit c \<or> c = 95 \<or> c = 45)"

definition test :: "(nat \<Rightarrow> bool) \<Rightarrow> jsstring \<Rightarrow> bool" where
  \<comment> \<open>\<^verbatim>\<open>/[class]/.test(s)\<close>: some code unit of \<open>s\<close> is in the class\<close>
  "test cls s = list_ex cls s"

definition is_not_newline :: "nat \<Rightarrow> bool" where
  "is_not_newline c = (c \<noteq> 10)"

fun show_nat :: "nat \<Rightarrow> jsstring" where
  \<comment> \<open>a non-negative integer in a template literal: its decimal digits\<close>
  "show_nat n = (if n < 10 then [48 + n] else show_nat (n div 10) @ [48 + n mod 10])"

declare show_nat.simps [simp del]

definition join :: "jsstring \<Rightarrow> jsstring list \<Rightarrow> jsstring" where
  \<comment> \<open>\<^verbatim>\<open>parts.join(sep)\<close> on an array of strings\<close>
  "join sep parts = (case parts of [] \<Rightarrow> [] | p # ps \<Rightarrow> p @ concat (map (\<lambda>q. sep @ q) ps))"

definition trim :: "jsstring \<Rightarrow> jsstring" where
  \<comment> \<open>\<^verbatim>\<open>s.trim()\<close>\<close>
  "trim s = rev (dropWhile is_space (rev (dropWhile is_space s)))"

definition hyphenate :: "jsstring \<Rightarrow> jsstring" where
  \<comment> \<open>\<^verbatim>\<open>key.replace(/_/g, '-')\<close>\<close>
  "hyphenate key = map (\<lambda>c. if c = 95 then 45 else c) key"

section \<open>Tokenizer\<close>

datatype kind = COMMENT | STRING | HEX | NUMBER | IDENT | PUNCT | WS

record token =
  tok_t :: kind
  tok_v :: jsstring
  tok_unit :: "jsstring option"

definition Tok :: "kind \<Rightarrow> jsstring \<Rightarrow> token" where
  \<comment> \<open>\<^verbatim>\<open>{ t, v }\<close>: a token without a unit\<close>
  "Tok k s = \<lparr>tok_t = k, tok_v = s, tok_unit = None\<rparr>"

definition ch :: "jsstring \<Rightarrow> nat \<Rightarrow> jsstring" where
  \<comment> \<open>\<^verbatim>\<open>src[i + n] ?? ''\<close>, where the first argument is \<open>src\<close> from index \<open>i\<close> on\<close>
  "ch rest n = take 1 (drop n rest)"

text \<open>
  The body of a string literal, from the code unit after the opening quote \<open>q\<close>.
  A backslash skips to the next code unit, which is appended whatever it is; when the
  backslash is the last code unit of the input, \<^verbatim>\<open>src[i]\<close> is undefined there and
  \<^verbatim>\<open>v += src[i++]\<close> appends the text \<^verbatim>\<open>undefined\<close>. The result is the value and the
  input at the exit of the loop (at the closing quote, if there is one).
\<close>

fun scan_string :: "nat \<Rightarrow> jsstring \<Rightarrow> jsstring \<Rightarrow> jsstring \<times> jsstring" where
  "scan_string q [] v = (v, [])"
| "scan_string q (c # cs) v =
     (if c = q then (v, c # cs)
      else if c = 92 then
        (case cs of
           [] \<Rightarrow> (v @ js ''undefined'', [])
         | d # ds \<Rightarrow> scan_string q ds (v @ [d]))
      else scan_string q cs (v @ [c]))"

definition number_start :: "jsstring \<Rightarrow> bool" where
  "number_start rest =
     (test is_digit (ch rest 0)
      \<or> (ch rest 0 = js ''.'' \<and> test is_digit (ch rest 1))
      \<or> ((ch rest 0 = js ''-'' \<or> ch rest 0 = js ''+'')
          \<and> (test is_digit (ch rest 1) \<or> (ch rest 1 = js ''.'' \<and> test is_digit (ch rest 2)))))"

definition skip_sign :: "jsstring \<Rightarrow> jsstring" where
  \<comment> \<open>\<^verbatim>\<open>if (src[i] === '-' || src[i] === '+') i++\<close>\<close>
  "skip_sign rest = (if ch rest 0 = js ''-'' \<or> ch rest 0 = js ''+'' then drop 1 rest else rest)"

lemma scan_string_length: "length (snd (scan_string q s v)) \<le> length s"
proof (induction q s v rule: scan_string.induct)
  case (1 q v)
  show ?case by simp
next
  case (2 q c cs v)
  show ?case
  proof (cases cs)
    case Nil
    then show ?thesis using 2 by simp
  next
    case (Cons d ds)
    then show ?thesis using 2 by (simp add: le_SucI)
  qed
qed

lemma dropWhile_shorter:
  assumes "s \<noteq> []" and "cls (hd s)"
  shows "length (dropWhile cls s) < length s"
proof (cases s)
  case Nil
  with assms show ?thesis by simp
next
  case (Cons c cs)
  with assms have "dropWhile cls s = dropWhile cls cs" by simp
  moreover have "length (dropWhile cls cs) \<le> length cs" by (rule length_dropWhile_le)
  ultimately show ?thesis using Cons by simp
qed

lemma ch0_hd: "ch s 0 = [c] \<Longrightarrow> s \<noteq> [] \<and> hd s = c"
  by (cases s) (simp_all add: ch_def)

lemma test_ch0_hd: "test cls (ch s 0) \<Longrightarrow> s \<noteq> [] \<and> cls (hd s)"
  by (cases s) (simp_all add: ch_def test_def)

lemma skip_sign_length: "length (skip_sign s) \<le> length s"
  by (simp add: skip_sign_def)

lemma number_start_shorter:
  assumes "number_start s"
  shows "length (dropWhile is_unit_char (dropWhile is_number_char (skip_sign s))) < length s"
proof -
  let ?r = "dropWhile is_number_char (skip_sign s)"
  have a: "length (dropWhile is_unit_char ?r) \<le> length ?r"
    by (rule length_dropWhile_le)
  have "length ?r < length s"
  proof (cases "ch s 0 = js ''-'' \<or> ch s 0 = js ''+''")
    case True
    then have "s \<noteq> []" by (auto simp: js_def dest: ch0_hd)
    moreover have "skip_sign s = drop 1 s" using True by (simp add: skip_sign_def)
    moreover have "length (dropWhile is_number_char (drop 1 s)) \<le> length (drop 1 s)"
      by (rule length_dropWhile_le)
    ultimately show ?thesis by (cases s) simp_all
  next
    case False
    then have s: "skip_sign s = s" by (simp add: skip_sign_def)
    from assms False have "test is_digit (ch s 0) \<or> ch s 0 = js ''.''"
      by (auto simp: number_start_def)
    then have "s \<noteq> [] \<and> is_number_char (hd s)"
      by (auto simp: is_number_char_def js_def dest: test_ch0_hd ch0_hd)
    then show ?thesis using s by (simp add: dropWhile_shorter)
  qed
  with a show ?thesis by simp
qed

text \<open>
  \<open>tokenize rest\<close> is the loop of \<^verbatim>\<open>tokenize(src)\<close> with \<open>rest\<close> the input from the
  index \<open>i\<close> on; the whole function is \<open>tokenize src\<close>. The branches are tried in the
  order of the source.
\<close>

function tokenize :: "jsstring \<Rightarrow> token list" where
  "tokenize rest =
     (if rest = [] then []
      else if ch rest 0 = js ''-'' \<and> ch rest 1 = js ''-'' then
        Tok COMMENT (takeWhile is_not_newline rest) # tokenize (dropWhile is_not_newline rest)
      else if test is_space (ch rest 0) then
        Tok WS (takeWhile is_space rest) # tokenize (dropWhile is_space rest)
      else if ch rest 0 = js ''0'' \<and> (ch rest 1 = js ''x'' \<or> ch rest 1 = js ''X'') then
        Tok HEX (take 2 rest @ takeWhile is_hex_digit (drop 2 rest))
          # tokenize (dropWhile is_hex_digit (drop 2 rest))
      else if ch rest 0 = [34] \<or> ch rest 0 = [39] then
        Tok STRING (fst (scan_string (hd rest) (tl rest) []))
          # tokenize (drop 1 (snd (scan_string (hd rest) (tl rest) [])))
      else if number_start rest then
        \<lparr>tok_t = NUMBER,
         tok_v = take (length rest - length (skip_sign rest)) rest
                   @ takeWhile is_number_char (skip_sign rest),
         tok_unit = Some (takeWhile is_unit_char (dropWhile is_number_char (skip_sign rest)))\<rparr>
          # tokenize (dropWhile is_unit_char (dropWhile is_number_char (skip_sign rest)))
      else if test is_ident_start (ch rest 0) then
        Tok IDENT (takeWhile is_ident_char rest) # tokenize (dropWhile is_ident_char rest)
      else Tok PUNCT (take 1 rest) # tokenize (drop 1 rest))"
  by pat_completeness auto
termination
proof (relation "measure length")
  show "wf (measure length)" by simp
next
  fix rest :: jsstring
  assume "ch rest 0 = js ''-'' \<and> ch rest 1 = js ''-''"
  then have "rest \<noteq> [] \<and> is_not_newline (hd rest)"
    by (auto simp: js_def is_not_newline_def dest: ch0_hd)
  then show "(dropWhile is_not_newline rest, rest) \<in> measure length"
    by (simp add: dropWhile_shorter)
next
  fix rest :: jsstring
  assume "test is_space (ch rest 0)"
  then have "rest \<noteq> [] \<and> is_space (hd rest)" by (rule test_ch0_hd)
  then show "(dropWhile is_space rest, rest) \<in> measure length"
    by (simp add: dropWhile_shorter)
next
  fix rest :: jsstring
  assume "rest \<noteq> []"
  moreover have "length (dropWhile is_hex_digit (drop 2 rest)) \<le> length (drop 2 rest)"
    by (rule length_dropWhile_le)
  ultimately show "(dropWhile is_hex_digit (drop 2 rest), rest) \<in> measure length"
    by (cases rest) simp_all
next
  fix rest :: jsstring
  assume "rest \<noteq> []"
  moreover have "length (snd (scan_string (hd rest) (tl rest) [])) \<le> length (tl rest)"
    by (rule scan_string_length)
  ultimately show "(drop 1 (snd (scan_string (hd rest) (tl rest) [])), rest) \<in> measure length"
    by (cases rest) simp_all
next
  fix rest :: jsstring
  assume "number_start rest"
  then show "(dropWhile is_unit_char (dropWhile is_number_char (skip_sign rest)), rest)
               \<in> measure length"
    by (simp add: number_start_shorter)
next
  fix rest :: jsstring
  assume "test is_ident_start (ch rest 0)"
  then have "rest \<noteq> [] \<and> is_ident_start (hd rest)" by (rule test_ch0_hd)
  then have "rest \<noteq> [] \<and> is_ident_char (hd rest)"
    by (auto simp: is_ident_start_def is_ident_char_def)
  then show "(dropWhile is_ident_char rest, rest) \<in> measure length"
    by (simp add: dropWhile_shorter)
next
  fix rest :: jsstring
  assume "rest \<noteq> []"
  then show "(drop 1 rest, rest) \<in> measure length" by (cases rest) simp_all
qed

declare tokenize.simps [simp del]

section \<open>Selector resolver\<close>

text \<open>
  What the JavaScript of the source leaves to the engine is a parameter of the model:
  the text of a number (\<^verbatim>\<open>String(Number(v))\<close> for the text \<open>v\<close> of a token), the channel of
  \<^verbatim>\<open>color.color3\<close> (\<^verbatim>\<open>String(Math.round((Number(v) || 0) * 255))\<close>), both IEEE 754 double
  arithmetic, and the text of a built-in function of \<^verbatim>\<open>Object.prototype\<close>.
\<close>

record env =
  number_text :: "jsstring \<Rightarrow> jsstring"
  color3_channel :: "jsstring \<Rightarrow> jsstring"
  function_text :: "jsstring \<Rightarrow> jsstring"

definition PSEUDO_CLASS :: "jsstring list" where
  "PSEUDO_CLASS = map js
     [''hover'', ''focus'', ''active'', ''visited'', ''disabled'', ''checked'',
      ''placeholder'', ''first_child'', ''last_child'', ''nth_child'',
      ''first_of_type'', ''last_of_type'', ''focus_within'', ''focus_visible'',
      ''not'', ''root'', ''empty'', ''link'', ''enabled'', ''read_only'', ''read_write'']"

definition PSEUDO_ELEMENT :: "jsstring list" where
  "PSEUDO_ELEMENT = map js
     [''before'', ''after'', ''first_line'', ''first_letter'', ''selection'', ''placeholder'']"

definition PSEUDO_NAME_MAP :: "(jsstring \<times> jsstring) list" where
  "PSEUDO_NAME_MAP = map (\<lambda>(k, v). (js k, js v))
     [(''first_child'', ''first-child''),
      (''last_child'', ''last-child''),
      (''nth_child'', ''nth-child''),
      (''first_of_type'', ''first-of-type''),
      (''last_of_type'', ''last-of-type''),
      (''focus_within'', ''focus-within''),
      (''focus_visible'', ''focus-visible''),
      (''read_only'', ''read-only''),
      (''read_write'', ''read-write''),
      (''first_line'', ''first-line''),
      (''first_letter'', ''first-letter'')]"

text \<open>
  \<^verbatim>\<open>PSEUDO_NAME_MAP\<close> is an object literal, so \<^verbatim>\<open>PSEUDO_NAME_MAP[name]\<close> also finds what
  the object inherits from \<^verbatim>\<open>Object.prototype\<close>: its built-in functions, and under
  \<^verbatim>\<open>__proto__\<close> the prototype itself, whose text is \<^verbatim>\<open>[object Object]\<close>.
\<close>

definition Object_prototype_functions :: "jsstring list" where
  "Object_prototype_functions = map js
     [''constructor'', ''hasOwnProperty'', ''isPrototypeOf'', ''propertyIsEnumerable'',
      ''toLocaleString'', ''toString'', ''valueOf'', ''__defineGetter__'',
      ''__defineSetter__'', ''__lookupGetter__'', ''__lookupSetter__'']"

definition inherited :: "jsstring \<Rightarrow> bool" where
  \<comment> \<open>the names a plain object inherits from \<^verbatim>\<open>Object.prototype\<close>\<close>
  "inherited name = (name = js ''__proto__'' \<or> name \<in> set Object_prototype_functions)"

definition PSEUDO_NAME_MAP_get :: "env \<Rightarrow> jsstring \<Rightarrow> jsstring option" where
  \<comment> \<open>the text of \<^verbatim>\<open>PSEUDO_NAME_MAP[name]\<close>, \<open>None\<close> when it is undefined\<close>
  "PSEUDO_NAME_MAP_get e name =
     (case map_of PSEUDO_NAME_MAP name of
        Some v \<Rightarrow> Some v
      | None \<Rightarrow>
          if name = js ''__proto__'' then Some (js ''[object Object]'')
          else if name \<in> set Object_prototype_functions then Some (function_text e name)
          else None)"

definition isPseudo :: "jsstring \<Rightarrow> bool" where
  "isPseudo name = (name \<in> set PSEUDO_CLASS \<or> name \<in> set PSEUDO_ELEMENT)"

definition pseudoSelector :: "env \<Rightarrow> jsstring \<Rightarrow> jsstring \<Rightarrow> jsstring" where
  "pseudoSelector e parent name =
     (let cssName = (case PSEUDO_NAME_MAP_get e name of Some v \<Rightarrow> v | None \<Rightarrow> name);
          prefix = (if name \<in> set PSEUDO_ELEMENT then js ''::'' else js '':'')
      in parent @ prefix @ cssName)"

text \<open>
  \<^verbatim>\<open>child.replace(/&/g, parent)\<close> takes \<open>parent\<close> as a replacement template, in which
  \<^verbatim>\<open>$$\<close> stands for a dollar sign, \<^verbatim>\<open>$&\<close> for the matched text, \<^verbatim>\<open>$`\<close> for the text
  before the match and \<^verbatim>\<open>$'\<close> for the text after it (the pattern has no capture
  group, so every other \<^verbatim>\<open>$\<close> is literal). \<open>GetSubstitution\<close> expands a template for
  one match.
\<close>

fun GetSubstitution :: "jsstring \<Rightarrow> jsstring \<Rightarrow> jsstring \<Rightarrow> jsstring \<Rightarrow> jsstring" where
  "GetSubstitution matched front back [] = []"
| "GetSubstitution matched front back [c] = [c]"
| "GetSubstitution matched front back (c # d # template) =
     (if c = 36 \<and> d = 36 then 36 # GetSubstitution matched front back template
      else if c = 36 \<and> d = 38 then matched @ GetSubstitution matched front back template
      else if c = 36 \<and> d = 96 then front @ GetSubstitution matched front back template
      else if c = 36 \<and> d = 39 then back @ GetSubstitution matched front back template
      else c # GetSubstitution matched front back (d # template))"

fun replace_amp :: "jsstring \<Rightarrow> jsstring \<Rightarrow> jsstring \<Rightarrow> jsstring" where
  \<comment> \<open>the second argument is the part of \<open>child\<close> already scanned\<close>
  "replace_amp parent front [] = []"
| "replace_amp parent front (c # cs) =
     (if c = 38 then GetSubstitution [38] front cs parent @ replace_amp parent (front @ [c]) cs
      else c # replace_amp parent (front @ [c]) cs)"

definition resolveSelector :: "jsstring \<Rightarrow> jsstring \<Rightarrow> jsstring" where
  "resolveSelector parent child =
     (if 38 \<in> set child then replace_amp parent [] child
      else if take 1 child = js '':'' then parent @ child
      else parent @ js '' '' @ child)"

section \<open>Parser\<close>

record parser =
  tokens :: "token list"
  pos :: nat
  errors :: "jsstring list"

definition peek :: "parser \<Rightarrow> nat \<Rightarrow> token option" where
  \<comment> \<open>\<^verbatim>\<open>this.tokens[this.pos + n]\<close>, \<open>None\<close> for undefined\<close>
  "peek st n = (if pos st + n < length (tokens st) then Some (tokens st ! (pos st + n)) else None)"

definition peek_v :: "parser \<Rightarrow> nat \<Rightarrow> jsstring option" where
  \<comment> \<open>\<^verbatim>\<open>this.peek(n)?.v\<close>\<close>
  "peek_v st n = map_option tok_v (peek st n)"

definition peek_t :: "parser \<Rightarrow> nat \<Rightarrow> kind option" where
  \<comment> \<open>\<^verbatim>\<open>this.peek(n)?.t\<close>\<close>
  "peek_t st n = map_option tok_t (peek st n)"

definition eat :: "parser \<Rightarrow> token option \<times> parser" where
  \<comment> \<open>\<^verbatim>\<open>this.tokens[this.pos++]\<close>: the position moves on at the end of input too\<close>
  "eat st = (peek st 0, st\<lparr>pos := pos st + 1\<rparr>)"

definition eof :: "parser \<Rightarrow> bool" where
  "eof st = (length (tokens st) \<le> pos st)"

definition remaining :: "parser \<Rightarrow> nat" where
  \<comment> \<open>the tokens not yet consumed\<close>
  "remaining st = length (tokens st) - pos st"

definition expect_message :: "jsstring \<Rightarrow> jsstring \<Rightarrow> nat \<Rightarrow> jsstring" where
  "expect_message val got p =
     js ''Expected '' @ [39] @ val @ [39] @ js '' but got '' @ [39] @ got @ [39]
       @ js '' (pos '' @ show_nat p @ js '')''"

definition expect :: "jsstring \<Rightarrow> parser \<Rightarrow> token option \<times> parser" where
  "expect val st =
     (case peek st 0 of
        None \<Rightarrow> (None, st\<lparr>errors := errors st @ [expect_message val (js ''EOF'') (pos st)]\<rparr>)
      | Some t \<Rightarrow>
          if tok_v t = val then eat st
          else (None, st\<lparr>errors := errors st @ [expect_message val (tok_v t) (pos st)]\<rparr>))"

definition eat_comma :: "parser \<Rightarrow> parser" where
  \<comment> \<open>\<^verbatim>\<open>if (this.peek()?.v === ',') this.eat()\<close>\<close>
  "eat_comma st = (if peek_v st 0 = Some (js '','') then snd (eat st) else st)"

definition padStart :: "nat \<Rightarrow> nat \<Rightarrow> jsstring \<Rightarrow> jsstring" where
  \<comment> \<open>\<^verbatim>\<open>s.padStart(n, c)\<close> for a single code unit \<open>c\<close>\<close>
  "padStart n c s = replicate (n - length s) c @ s"

definition tokenToValuePiece :: "token option \<Rightarrow> jsstring" where
  "tokenToValuePiece x =
     (case x of
        None \<Rightarrow> []
      | Some t \<Rightarrow>
          if tok_t t = STRING then [34] @ tok_v t @ [34]
          else if tok_t t = NUMBER then tok_v t @ (case tok_unit t of None \<Rightarrow> [] | Some u \<Rightarrow> u)
          else if tok_t t = HEX then js ''#'' @ padStart 6 48 (drop 2 (tok_v t))
          else tok_v t)"

record depth =
  paren :: nat
  brack :: nat
  brace :: nat

definition shouldStopValue :: "parser \<Rightarrow> depth \<Rightarrow> bool" where
  "shouldStopValue st d =
     (case peek st 0 of
        None \<Rightarrow> True
      | Some t \<Rightarrow>
          if paren d = 0 \<and> brack d = 0 \<and> brace d = 0 then
            (if tok_v t = js '','' \<or> tok_v t = js ''}'' \<or> tok_v t = js ''end'' then True
             else if tok_t t = IDENT \<and> peek_v st 1 = Some (js ''='') then True
             else False)
          else False)"

subsection \<open>Color constructors\<close>

datatype arg =
  ArgNumber jsstring  \<comment> \<open>\<^verbatim>\<open>Number(t.v)\<close> for a number token of text \<open>t.v\<close>\<close>
| ArgString jsstring  \<comment> \<open>\<^verbatim>\<open>t.v\<close> for any other token\<close>

definition arg_text :: "env \<Rightarrow> arg \<Rightarrow> jsstring" where
  \<comment> \<open>an argument in a template literal or a join\<close>
  "arg_text e a = (case a of ArgNumber x \<Rightarrow> number_text e x | ArgString x \<Rightarrow> x)"

definition arg_at :: "env \<Rightarrow> arg list \<Rightarrow> nat \<Rightarrow> jsstring" where
  \<comment> \<open>\<^verbatim>\<open>${args[i]}\<close>\<close>
  "arg_at e args i = (if i < length args then arg_text e (args ! i) else js ''undefined'')"

definition channel_at :: "env \<Rightarrow> arg list \<Rightarrow> nat \<Rightarrow> jsstring" where
  \<comment> \<open>\<^verbatim>\<open>${Math.round((+args[i] || 0) * 255)}\<close>; a missing argument gives 0\<close>
  "channel_at e args i =
     (if i < length args
      then color3_channel e (case args ! i of ArgNumber x \<Rightarrow> x | ArgString x \<Rightarrow> x)
      else js ''0'')"

function parseColor_args :: "parser \<Rightarrow> arg list \<Rightarrow> arg list \<times> parser" where
  "parseColor_args st args =
     (if eof st \<or> peek_v st 0 = Some (js '')'') then (args, st)
      else
        (case fst (eat st) of
           None \<Rightarrow> (args, snd (eat st))
         | Some t \<Rightarrow>
             if tok_v t = js '','' then parseColor_args (snd (eat st)) args
             else if tok_t t = NUMBER then parseColor_args (snd (eat st)) (args @ [ArgNumber (tok_v t)])
             else parseColor_args (snd (eat st)) (args @ [ArgString (tok_v t)])))"
  by pat_completeness auto
termination
  by (relation "measure (\<lambda>(st, args). length (tokens st) - pos st)")
     (auto simp: eof_def eat_def)

declare parseColor_args.simps [simp del]

text \<open>
  The steps of the parser are counted: one step for every test of a loop condition and
  one for every call of \<^verbatim>\<open>parseColor\<close>, \<^verbatim>\<open>parseValue\<close>, \<^verbatim>\<open>parseFunctionBlock\<close> and
  \<^verbatim>\<open>parseBlock\<close>. For the loops without a nested call the count is a function of the
  state the loop starts in, written after the loop it counts; \<^verbatim>\<open>parseBlock\<close> and \<^verbatim>\<open>parse\<close>
  below take the steps they may use and pay for what they call.
\<close>

function steps_parseColor_args :: "parser \<Rightarrow> nat" where
  "steps_parseColor_args st =
     (if eof st \<or> peek_v st 0 = Some (js '')'') then 1
      else 1 + steps_parseColor_args (snd (eat st)))"
  by pat_completeness auto
termination
  by (relation "measure (\<lambda>st. length (tokens st) - pos st)") (auto simp: eof_def eat_def)

declare steps_parseColor_args.simps [simp del]

definition color_value :: "env \<Rightarrow> jsstring \<Rightarrow> arg list \<Rightarrow> parser \<Rightarrow> jsstring \<times> parser" where
  \<comment> \<open>the \<^verbatim>\<open>switch (fn)\<close> of \<^verbatim>\<open>parseColor\<close>\<close>
  "color_value e fn args st =
     (if fn = js ''hex'' then
        (let raw = (case args of [] \<Rightarrow> js ''000000'' | a # _ \<Rightarrow> arg_text e a)
         in (if take 1 raw = js ''#'' then raw else js ''#'' @ raw, st))
      else if fn = js ''rgb'' then
        (js ''rgb('' @ join (js '', '') (map (arg_text e) (take 3 args)) @ js '')'', st)
      else if fn = js ''rgba'' then
        (js ''rgba('' @ join (js '', '') (map (arg_text e) (take 4 args)) @ js '')'', st)
      else if fn = js ''hsl'' then
        (js ''hsl('' @ arg_at e args 0 @ js '', '' @ arg_at e args 1 @ js ''%, ''
           @ arg_at e args 2 @ js ''%)'', st)
      else if fn = js ''hsla'' then
        (js ''hsla('' @ arg_at e args 0 @ js '', '' @ arg_at e args 1 @ js ''%, ''
           @ arg_at e args 2 @ js ''%, '' @ arg_at e args 3 @ js '')'', st)
      else if fn = js ''color3'' then
        (js ''rgb('' @ channel_at e args 0 @ js '', '' @ channel_at e args 1 @ js '', ''
           @ channel_at e args 2 @ js '')'', st)
      else
        (js ''#000000'',
         st\<lparr>errors := errors st @ [js ''Unknown color function: color.'' @ fn]\<rparr>))"

definition parseColor :: "env \<Rightarrow> parser \<Rightarrow> jsstring \<times> parser" where
  "parseColor e st =
     (let st1 = snd (eat st);
          st2 = snd (expect (js ''.'') st1);
          fn = (case fst (eat st2) of None \<Rightarrow> [] | Some t \<Rightarrow> tok_v t);
          st3 = snd (eat st2);
          st4 = snd (expect (js ''('') st3);
          args = fst (parseColor_args st4 []);
          st5 = snd (parseColor_args st4 []);
          st6 = snd (expect (js '')'') st5)
      in color_value e fn args st6)"

definition steps_parseColor :: "parser \<Rightarrow> nat" where
  "steps_parseColor st =
     1 + steps_parseColor_args
           (snd (expect (js ''('') (snd (eat (snd (expect (js ''.'') (snd (eat st))))))))"

subsection \<open>Values\<close>

definition wordLike :: "token \<Rightarrow> bool" where
  "wordLike t = (tok_t t = IDENT \<or> tok_t t = NUMBER \<or> tok_t t = STRING \<or> tok_t t = HEX)"

definition wordLike_opt :: "token option \<Rightarrow> bool" where
  \<comment> \<open>\<^verbatim>\<open>x && (x.t === ... )\<close>\<close>
  "wordLike_opt x = (case x of None \<Rightarrow> False | Some t \<Rightarrow> wordLike t)"

definition isMathOperator :: "parser \<Rightarrow> token option \<Rightarrow> token \<Rightarrow> bool" where
  "isMathOperator st prev n =
     (let piece = tokenToValuePiece (Some n);
          prevPiece = tokenToValuePiece prev;
          next = peek st 1;
          prevCanMath = (case prev of None \<Rightarrow> False
                         | Some p \<Rightarrow> wordLike p \<or> prevPiece = js '')'' \<or> prevPiece = js '']'');
          nextCanMath = (case next of None \<Rightarrow> False
                         | Some x \<Rightarrow> wordLike x \<or> tok_v x = js ''('')
      in (piece = js ''+'' \<or> piece = js ''-'') \<and> prevCanMath \<and> nextCanMath)"

definition needsSpace :: "token option \<Rightarrow> token \<Rightarrow> bool" where
  "needsSpace prev n =
     (case prev of
        None \<Rightarrow> False
      | Some p \<Rightarrow> (wordLike p \<and> wordLike n)
                  \<or> (tokenToValuePiece prev = js '')'' \<and> wordLike n))"

definition append_piece :: "parser \<Rightarrow> jsstring \<Rightarrow> token option \<Rightarrow> token \<Rightarrow> jsstring" where
  \<comment> \<open>the new \<^verbatim>\<open>val\<close> of one iteration of the loop of \<^verbatim>\<open>parseValue\<close>\<close>
  "append_piece st val prev n =
     (let piece = tokenToValuePiece (Some n) in
      if isMathOperator st prev n then
        (let val1 = (if val = [] \<or> take 1 (rev val) = js '' '' then val else val @ js '' '');
             val2 = val1 @ piece
         in case peek st 1 of
              None \<Rightarrow> val2
            | Some x \<Rightarrow>
                if tok_v x = js '')'' \<or> tok_v x = js '','' \<or> tok_v x = js ''}''
                   \<or> tok_v x = js ''end''
                then val2 else val2 @ js '' '')
      else (if needsSpace prev n then val @ js '' '' else val) @ piece)"

definition update_depth :: "depth \<Rightarrow> jsstring \<Rightarrow> depth" where
  \<comment> \<open>\<^verbatim>\<open>Math.max(0, k - 1)\<close> is the subtraction of natural numbers\<close>
  "update_depth d x =
     (if x = js ''('' then d\<lparr>paren := paren d + 1\<rparr>
      else if x = js '')'' then d\<lparr>paren := paren d - 1\<rparr>
      else if x = js ''['' then d\<lparr>brack := brack d + 1\<rparr>
      else if x = js '']'' then d\<lparr>brack := brack d - 1\<rparr>
      else if x = js ''{'' then d\<lparr>brace := brace d + 1\<rparr>
      else if x = js ''}'' then d\<lparr>brace := brace d - 1\<rparr>
      else d)"

function parseValue_loop ::
  "parser \<Rightarrow> depth \<Rightarrow> jsstring \<Rightarrow> token option \<Rightarrow> jsstring \<times> parser" where
  "parseValue_loop st d val prev =
     (if eof st \<or> shouldStopValue st d then (val, st)
      else
        (case peek st 0 of
           None \<Rightarrow> (val, st)
         | Some n \<Rightarrow>
             parseValue_loop (snd (eat st)) (update_depth d (tok_v n))
               (append_piece st val prev n) (fst (eat st))))"
  by pat_completeness auto
termination
  by (relation "measure (\<lambda>(st, d, val, prev). length (tokens st) - pos st)")
     (auto simp: eof_def eat_def)

declare parseValue_loop.simps [simp del]

function steps_parseValue_loop :: "parser \<Rightarrow> depth \<Rightarrow> nat" where
  "steps_parseValue_loop st d =
     (if eof st \<or> shouldStopValue st d then 1
      else
        (case peek st 0 of
           None \<Rightarrow> 1
         | Some n \<Rightarrow> 1 + steps_parseValue_loop (snd (eat st)) (update_depth d (tok_v n))))"
  by pat_completeness auto
termination
  by (relation "measure (\<lambda>(st, d). length (tokens st) - pos st)") (auto simp: eof_def eat_def)

declare steps_parseValue_loop.simps [simp del]

definition parseValue :: "env \<Rightarrow> parser \<Rightarrow> jsstring \<times> parser" where
  "parseValue e st =
     (case peek st 0 of
        None \<Rightarrow> ([], st)
      | Some t \<Rightarrow>
          if tok_t t = IDENT \<and> tok_v t = js ''color'' \<and> peek_v st 1 = Some (js ''.'')
          then parseColor e st
          else if tok_t t = IDENT
                  \<and> (peek_v st 1 = Some (js ''='') \<or> peek_v st 1 = Some (js ''{''))
          then ([], st)
          else if tok_t t = IDENT \<and> (tok_v t = js ''end'' \<or> tok_v t = js ''function'')
          then ([], st)
          else (trim (fst (parseValue_loop st \<lparr>paren = 0, brack = 0, brace = 0\<rparr> [] None)),
                snd (parseValue_loop st \<lparr>paren = 0, brack = 0, brace = 0\<rparr> [] None)))"

definition steps_parseValue :: "parser \<Rightarrow> nat" where
  "steps_parseValue st =
     (case peek st 0 of
        None \<Rightarrow> 1
      | Some t \<Rightarrow>
          if tok_t t = IDENT \<and> tok_v t = js ''color'' \<and> peek_v st 1 = Some (js ''.'')
          then 1 + steps_parseColor st
          else if tok_t t = IDENT
                  \<and> (peek_v st 1 = Some (js ''='') \<or> peek_v st 1 = Some (js ''{''))
          then 1
          else if tok_t t = IDENT \<and> (tok_v t = js ''end'' \<or> tok_v t = js ''function'')
          then 1
          else 1 + steps_parseValue_loop st \<lparr>paren = 0, brack = 0, brace = 0\<rparr>)"

subsection \<open>Blocks\<close>

record decl =
  decl_prop :: jsstring
  decl_value :: jsstring

datatype node = Node (node_selector: jsstring) (node_props: "decl list") (node_children: "node list")

record flat_rule =
  selector :: jsstring
  props :: "decl list"

definition push_decl :: "jsstring \<Rightarrow> jsstring \<Rightarrow> decl list \<Rightarrow> decl list" where
  \<comment> \<open>\<^verbatim>\<open>if (value !== '') props.push({ prop: key.replace(/_/g, '-'), value })\<close>\<close>
  "push_decl key x ps =
     (if x = [] then ps else ps @ [\<lparr>decl_prop = hyphenate key, decl_value = x\<rparr>])"

lemma tokens_eat [simp]: "tokens (snd (eat st)) = tokens st"
  by (simp add: eat_def)

lemma pos_eat [simp]: "pos (snd (eat st)) = Suc (pos st)"
  by (simp add: eat_def)

lemma errors_eat [simp]: "errors (snd (eat st)) = errors st"
  by (simp add: eat_def)

lemma tokens_expect [simp]: "tokens (snd (expect x st)) = tokens st"
  by (simp add: expect_def split: option.split)

lemma pos_expect: "pos st \<le> pos (snd (expect x st))"
  by (simp add: expect_def split: option.split)

lemma tokens_eat_comma [simp]: "tokens (eat_comma st) = tokens st"
  by (simp add: eat_comma_def)

lemma pos_eat_comma: "pos st \<le> pos (eat_comma st)"
  by (simp add: eat_comma_def)

lemma errors_eat_comma [simp]: "errors (eat_comma st) = errors st"
  by (simp add: eat_comma_def)

lemma parseColor_args_frame:
  "tokens (snd (parseColor_args st args)) = tokens st
   \<and> pos st \<le> pos (snd (parseColor_args st args))
   \<and> errors (snd (parseColor_args st args)) = errors st"
proof (induction st args rule: parseColor_args.induct)
  case (1 st args)
  show ?case
  proof (cases "eof st \<or> peek_v st 0 = Some (js '')'')")
    case True
    then show ?thesis by (subst (1 2 3) parseColor_args.simps) simp
  next
    case False
    show ?thesis
    proof (cases "fst (eat st)")
      case None
      with False show ?thesis by (subst (1 2 3) parseColor_args.simps) simp
    next
      case (Some t)
      with False 1 [OF False Some] show ?thesis
        by (subst (1 2 3) parseColor_args.simps) (auto simp: Suc_leD)
    qed
  qed
qed

lemma color_value_frame:
  "tokens (snd (color_value e fn args st)) = tokens st
   \<and> pos (snd (color_value e fn args st)) = pos st"
  by (simp add: color_value_def Let_def)

lemma parseColor_frame:
  "tokens (snd (parseColor e st)) = tokens st \<and> pos st \<le> pos (snd (parseColor e st))"
proof -
  let ?st1 = "snd (eat st)"
  let ?st2 = "snd (expect (js ''.'') ?st1)"
  let ?st3 = "snd (eat ?st2)"
  let ?st4 = "snd (expect (js ''('') ?st3)"
  let ?st5 = "snd (parseColor_args ?st4 [])"
  let ?st6 = "snd (expect (js '')'') ?st5)"
  have "pos st \<le> pos ?st1" by simp
  also have "\<dots> \<le> pos ?st2" by (rule pos_expect)
  also have "\<dots> \<le> pos ?st3" by simp
  also have "\<dots> \<le> pos ?st4" by (rule pos_expect)
  also have "\<dots> \<le> pos ?st5" using parseColor_args_frame [of ?st4 "[]"] by simp
  also have "\<dots> \<le> pos ?st6" by (rule pos_expect)
  finally have p: "pos st \<le> pos ?st6" .
  have t: "tokens ?st6 = tokens st" using parseColor_args_frame [of ?st4 "[]"] by simp
  show ?thesis using p t by (simp add: parseColor_def Let_def color_value_frame)
qed

lemma parseValue_loop_frame:
  "tokens (snd (parseValue_loop st d val prev)) = tokens st
   \<and> pos st \<le> pos (snd (parseValue_loop st d val prev))
   \<and> errors (snd (parseValue_loop st d val prev)) = errors st"
proof (induction st d val prev rule: parseValue_loop.induct)
  case (1 st d val prev)
  show ?case
  proof (cases "eof st \<or> shouldStopValue st d")
    case True
    then show ?thesis by (subst (1 2 3) parseValue_loop.simps) simp
  next
    case False
    show ?thesis
    proof (cases "peek st 0")
      case None
      with False show ?thesis by (subst (1 2 3) parseValue_loop.simps) simp
    next
      case (Some n)
      with False 1 [OF False Some] show ?thesis
        by (subst (1 2 3) parseValue_loop.simps) (auto simp: Suc_leD)
    qed
  qed
qed

lemma parseValue_frame:
  "tokens (snd (parseValue e st)) = tokens st \<and> pos st \<le> pos (snd (parseValue e st))"
  using parseColor_frame [of e st]
    parseValue_loop_frame [of st "\<lparr>paren = 0, brack = 0, brace = 0\<rparr>" "[]" None]
  by (simp add: parseValue_def split: option.split)

lemma functionBlock_value_shorter:
  assumes "\<not> (eof st \<or> stop)"
  shows "length (tokens (eat_comma (snd (parseValue e (snd (eat (snd (eat st))))))))
           - pos (eat_comma (snd (parseValue e (snd (eat (snd (eat st)))))))
         < length (tokens st) - pos st"
proof -
  let ?st2 = "snd (eat (snd (eat st)))"
  let ?st3 = "snd (parseValue e ?st2)"
  have "pos ?st2 \<le> pos ?st3" and t: "tokens ?st3 = tokens st"
    using parseValue_frame [of e ?st2] by simp_all
  moreover have "pos ?st3 \<le> pos (eat_comma ?st3)" by (rule pos_eat_comma)
  ultimately have "pos st < pos (eat_comma ?st3)" by simp
  moreover have "pos st < length (tokens st)" using assms by (simp add: eof_def)
  ultimately show ?thesis using t by (simp add: diff_less_mono2)
qed

lemma functionBlock_key_shorter:
  assumes "\<not> (eof st \<or> stop)"
  shows "length (tokens (eat_comma (snd (eat st)))) - pos (eat_comma (snd (eat st)))
         < length (tokens st) - pos st"
proof -
  have "pos (snd (eat st)) \<le> pos (eat_comma (snd (eat st)))" by (rule pos_eat_comma)
  then have "pos st < pos (eat_comma (snd (eat st)))" by simp
  moreover have "pos st < length (tokens st)" using assms by (simp add: eof_def)
  ultimately show ?thesis by (simp add: diff_less_mono2)
qed

lemma functionBlock_skip_shorter:
  assumes "\<not> (eof st \<or> stop)"
  shows "length (tokens (snd (eat st))) - pos (snd (eat st)) < length (tokens st) - pos st"
proof -
  have "pos st < length (tokens st)" using assms by (simp add: eof_def)
  then show ?thesis by (simp add: diff_less_mono2)
qed

function parseFunctionBlock_loop :: "env \<Rightarrow> parser \<Rightarrow> decl list \<Rightarrow> decl list \<times> parser" where
  "parseFunctionBlock_loop e st ps =
     (if eof st \<or> peek_v st 0 = Some (js ''end'') then (ps, st)
      else if peek_t st 0 = Some IDENT then
        (if peek_v (snd (eat st)) 0 = Some (js ''='') then
           parseFunctionBlock_loop e
             (eat_comma (snd (parseValue e (snd (eat (snd (eat st)))))))
             (push_decl (the (peek_v st 0)) (fst (parseValue e (snd (eat (snd (eat st)))))) ps)
         else parseFunctionBlock_loop e (eat_comma (snd (eat st))) ps)
      else parseFunctionBlock_loop e (snd (eat st)) ps)"
  by pat_completeness auto
termination
proof (relation "measure (\<lambda>(e, st, ps). length (tokens st) - pos st)")
  show "wf (measure (\<lambda>(e, st, ps). length (tokens st) - pos st))" by simp
next
  fix e :: env and st :: parser and ps :: "decl list"
  assume a: "\<not> (eof st \<or> peek_v st 0 = Some (js ''end''))"
  show "((e, eat_comma (snd (parseValue e (snd (eat (snd (eat st)))))),
          push_decl (the (peek_v st 0)) (fst (parseValue e (snd (eat (snd (eat st)))))) ps),
         e, st, ps)
        \<in> measure (\<lambda>(e, st, ps). length (tokens st) - pos st)"
    using functionBlock_value_shorter [OF a, of e] by simp
next
  fix e :: env and st :: parser and ps :: "decl list"
  assume a: "\<not> (eof st \<or> peek_v st 0 = Some (js ''end''))"
  show "((e, eat_comma (snd (eat st)), ps), e, st, ps)
        \<in> measure (\<lambda>(e, st, ps). length (tokens st) - pos st)"
    using functionBlock_key_shorter [OF a] by simp
next
  fix e :: env and st :: parser and ps :: "decl list"
  assume a: "\<not> (eof st \<or> peek_v st 0 = Some (js ''end''))"
  show "((e, snd (eat st), ps), e, st, ps)
        \<in> measure (\<lambda>(e, st, ps). length (tokens st) - pos st)"
    using functionBlock_skip_shorter [OF a] by simp
qed

declare parseFunctionBlock_loop.simps [simp del]

function steps_parseFunctionBlock_loop :: "env \<Rightarrow> parser \<Rightarrow> nat" where
  "steps_parseFunctionBlock_loop e st =
     (if eof st \<or> peek_v st 0 = Some (js ''end'') then 1
      else if peek_t st 0 = Some IDENT then
        (if peek_v (snd (eat st)) 0 = Some (js ''='') then
           1 + steps_parseValue (snd (eat (snd (eat st))))
             + steps_parseFunctionBlock_loop e
                 (eat_comma (snd (parseValue e (snd (eat (snd (eat st)))))))
         else 1 + steps_parseFunctionBlock_loop e (eat_comma (snd (eat st))))
      else 1 + steps_parseFunctionBlock_loop e (snd (eat st)))"
  by pat_completeness auto
termination
proof (relation "measure (\<lambda>(e, st). length (tokens st) - pos st)")
  show "wf (measure (\<lambda>(e, st). length (tokens st) - pos st))" by simp
next
  fix e :: env and st :: parser
  assume a: "\<not> (eof st \<or> peek_v st 0 = Some (js ''end''))"
  show "((e, eat_comma (snd (parseValue e (snd (eat (snd (eat st))))))), e, st)
        \<in> measure (\<lambda>(e, st). length (tokens st) - pos st)"
    using functionBlock_value_shorter [OF a, of e] by simp
next
  fix e :: env and st :: parser
  assume a: "\<not> (eof st \<or> peek_v st 0 = Some (js ''end''))"
  show "((e, eat_comma (snd (eat st))), e, st)
        \<in> measure (\<lambda>(e, st). length (tokens st) - pos st)"
    using functionBlock_key_shorter [OF a] by simp
next
  fix e :: env and st :: parser
  assume a: "\<not> (eof st \<or> peek_v st 0 = Some (js ''end''))"
  show "((e, snd (eat st)), e, st) \<in> measure (\<lambda>(e, st). length (tokens st) - pos st)"
    using functionBlock_skip_shorter [OF a] by simp
qed

declare steps_parseFunctionBlock_loop.simps [simp del]

definition parseFunctionBlock :: "env \<Rightarrow> parser \<Rightarrow> decl list \<times> parser" where
  "parseFunctionBlock e st =
     (let st1 = snd (expect (js ''function'') st);
          st2 = snd (expect (js ''('') st1);
          st3 = snd (expect (js '')'') st2);
          ps = fst (parseFunctionBlock_loop e st3 []);
          st4 = snd (parseFunctionBlock_loop e st3 [])
      in (ps, snd (expect (js ''end'') st4)))"

definition steps_parseFunctionBlock :: "env \<Rightarrow> parser \<Rightarrow> nat" where
  "steps_parseFunctionBlock e st =
     1 + steps_parseFunctionBlock_loop e
           (snd (expect (js '')'') (snd (expect (js ''('') (snd (expect (js ''function'') st))))))"

definition bracket_selector :: "parser \<Rightarrow> jsstring \<times> parser" where
  \<comment> \<open>after a token \<^verbatim>\<open>[\<close>: \<^verbatim>\<open>this.eat(); if (this.peek()?.t === TOKEN.STRING) sel = this.eat().v\<close>\<close>
  "bracket_selector st =
     (let st1 = snd (eat st)
      in if peek_t st1 0 = Some STRING then (the (peek_v st1 0), snd (eat st1)) else ([], st1))"

text \<open>
  \<^verbatim>\<open>parseBlock\<close> calls itself for a nested block and goes on from where the nested call
  stopped. Its first argument is the number of steps it may use: every call of
  \<^verbatim>\<open>parseBlock\<close> and every test of its loop condition takes one, a call of \<^verbatim>\<open>parseValue\<close>
  or \<^verbatim>\<open>parseFunctionBlock\<close> takes the steps of that call, and the result holds the steps
  that are left, with which the caller goes on. \<open>None\<close> says that the steps ran out. A
  nested call that returns leaves fewer steps than it was given (lemma
  \<open>parseBlock_steps_left\<close> below), so \<open>min\<close> changes nothing; it is what makes the
  recursion structural.
\<close>

fun parseBlock ::
    "nat \<Rightarrow> env \<Rightarrow> jsstring \<Rightarrow> parser \<Rightarrow> ((decl list \<times> node list) \<times> parser \<times> nat) option"
  and parseBlock_loop ::
    "nat \<Rightarrow> env \<Rightarrow> jsstring \<Rightarrow> parser \<Rightarrow> decl list \<Rightarrow> node list
       \<Rightarrow> ((decl list \<times> node list) \<times> parser \<times> nat) option"
where
  "parseBlock 0 e selectorPath st = None"
| "parseBlock (Suc fuel) e selectorPath st =
     (case parseBlock_loop fuel e selectorPath (snd (expect (js ''{'') st)) [] [] of
        None \<Rightarrow> None
      | Some (result, st1, left) \<Rightarrow> Some (result, snd (expect (js ''}'') st1), left))"
| "parseBlock_loop 0 e selectorPath st ps children = None"
| "parseBlock_loop (Suc fuel) e selectorPath st ps children =
     (if eof st \<or> peek_v st 0 = Some (js ''}'') then Some ((ps, children), st, fuel)
      else if peek_v st 0 = Some (js ''['') then
        (let sel = fst (bracket_selector st);
             st1 = snd (expect (js ''='') (snd (expect (js '']'') (snd (bracket_selector st)))));
             childSel = resolveSelector selectorPath sel
         in if peek_v st1 0 = Some (js ''{'') then
              (case parseBlock fuel e childSel st1 of
                 None \<Rightarrow> None
               | Some ((cps, cchildren), st2, left) \<Rightarrow>
                   parseBlock_loop (min fuel left) e selectorPath (eat_comma st2) ps
                     (children @ [Node childSel cps cchildren]))
            else parseBlock_loop fuel e selectorPath (eat_comma st1) ps children)
      else if peek_t st 0 = Some IDENT then
        (let key = the (peek_v st 0);
             st1 = snd (eat st)
         in if peek_v st1 0 = Some (js ''='') then
              (let st2 = snd (eat st1)
               in if isPseudo key \<and> peek_v st2 0 = Some (js ''function'') then
                    parseBlock_loop (fuel - steps_parseFunctionBlock e st2) e selectorPath
                      (eat_comma (snd (parseFunctionBlock e st2))) ps
                      (children @ [Node (pseudoSelector e selectorPath key)
                                     (fst (parseFunctionBlock e st2)) []])
                  else if peek_v st2 0 = Some (js ''{'') then
                    (case parseBlock fuel e (resolveSelector selectorPath (hyphenate key)) st2 of
                       None \<Rightarrow> None
                     | Some ((cps, cchildren), st3, left) \<Rightarrow>
                         parseBlock_loop (min fuel left) e selectorPath (eat_comma st3) ps
                           (children @ [Node (resolveSelector selectorPath (hyphenate key))
                                          cps cchildren]))
                  else
                    parseBlock_loop (fuel - steps_parseValue st2) e selectorPath
                      (eat_comma (snd (parseValue e st2)))
                      (push_decl key (fst (parseValue e st2)) ps) children)
            else parseBlock_loop fuel e selectorPath (eat_comma st1) ps children)
      else parseBlock_loop fuel e selectorPath (snd (eat st)) ps children)"

section \<open>Flattening and emission\<close>

fun collectChildren :: "node list \<Rightarrow> flat_rule list \<Rightarrow> flat_rule list" where
  "collectChildren [] rules = rules"
| "collectChildren (Node sel ps cs # children) rules =
     collectChildren children
       (let rules1 = (if ps = [] then rules else rules @ [\<lparr>selector = sel, props = ps\<rparr>])
        in if cs = [] then rules1 else collectChildren cs rules1)"

text \<open>
  Flattening as the specification words it: a depth-first pre-order walk, in which a node
  contributes a rule if and only if it has declarations, and its children are visited
  either way.
\<close>

fun flatten_spec :: "node \<Rightarrow> flat_rule list" where
  "flatten_spec (Node sel ps cs) =
     (if ps = [] then [] else [\<lparr>selector = sel, props = ps\<rparr>]) @ concat (map flatten_spec cs)"

definition push_block :: "jsstring \<Rightarrow> decl list \<Rightarrow> node list \<Rightarrow> flat_rule list \<Rightarrow> flat_rule list" where
  \<comment> \<open>\<^verbatim>\<open>if (props.length > 0) rules.push({ selector, props }); collectChildren(children, rules)\<close>\<close>
  "push_block sel ps children rules =
     collectChildren children
       (if ps = [] then rules else rules @ [\<lparr>selector = sel, props = ps\<rparr>])"

definition top_selector :: "parser \<Rightarrow> (jsstring \<times> parser) option" where
  \<comment> \<open>the selector of a top-level entry; \<open>None\<close> for a token that starts none\<close>
  "top_selector st =
     (if peek_t st 0 = Some IDENT then Some (the (peek_v st 0), snd (eat st))
      else if peek_v st 0 = Some (js ''['') then
        Some (fst (bracket_selector st), snd (expect (js '']'') (snd (bracket_selector st))))
      else None)"

text \<open>
  \<^verbatim>\<open>parse\<close> takes the steps it may use as \<^verbatim>\<open>parseBlock\<close> does: one for every test of its
  loop condition, and those of the blocks it parses.
\<close>

fun parse :: "nat \<Rightarrow> env \<Rightarrow> parser \<Rightarrow> flat_rule list \<Rightarrow> (flat_rule list \<times> parser) option" where
  "parse 0 e st rules = None"
| "parse (Suc fuel) e st rules =
     (if eof st then Some (rules, st)
      else
        (case top_selector st of
           None \<Rightarrow> parse fuel e (snd (eat st)) rules
         | Some (sel, st1) \<Rightarrow>
             if peek_v st1 0 = Some (js ''='') then
               (if peek_v (snd (eat st1)) 0 = Some (js ''{'') then
                  (case parseBlock fuel e sel (snd (eat st1)) of
                     None \<Rightarrow> None
                   | Some ((ps, children), st2, left) \<Rightarrow>
                       parse (min fuel left) e st2 (push_block sel ps children rules))
                else parse fuel e (snd (eat st1)) rules)
             else parse fuel e st1 rules))"

definition emit_decls :: "decl list \<Rightarrow> jsstring" where
  \<comment> \<open>\<^verbatim>\<open>decls\<close>: the declarations of one rule, one on a line\<close>
  "emit_decls ps =
     join [10] (map (\<lambda>d. js ''  '' @ decl_prop d @ js '': '' @ decl_value d @ js '';'') ps)"

definition emit :: "flat_rule list \<Rightarrow> jsstring" where
  "emit rules =
     join [10, 10]
       (map (\<lambda>r. selector r @ js '' {'' @ [10] @ emit_decls (props r) @ [10] @ js ''}'') rules)"

definition visible :: "flat_rule \<Rightarrow> bool" where
  \<comment> \<open>a rule that has declarations, and so a block that is not empty\<close>
  "visible r = (props r \<noteq> [] \<and> emit_decls (props r) \<noteq> [])"

section \<open>Public API\<close>

definition new_Parser :: "jsstring \<Rightarrow> parser" where
  "new_Parser src =
     \<lparr>tokens = filter (\<lambda>t. tok_t t \<noteq> WS \<and> tok_t t \<noteq> COMMENT) (tokenize src),
      pos = 0, errors = []\<rparr>"

record compiled =
  css :: "jsstring option"
  css_errors :: "jsstring list"

definition example_env :: env where
  \<comment> \<open>an environment for closed instances; no theorem depends on its choice\<close>
  "example_env =
     \<lparr>number_text = (\<lambda>x. x), color3_channel = (\<lambda>x. x),
      function_text = (\<lambda>name. js ''function '' @ name @ js ''() { [native code] }'')\<rparr>"

definition steps :: "parser \<Rightarrow> nat" where
  \<comment> \<open>the steps \<open>parse\<close> gets: linear in the number of tokens\<close>
  "steps st = 3 * length (tokens st) + 1"

definition compileLuaCSS :: "env \<Rightarrow> jsstring \<Rightarrow> compiled option" where
  \<comment> \<open>\<open>None\<close>: the parser ran out of steps\<close>
  "compileLuaCSS e src =
     (case parse (steps (new_Parser src)) e (new_Parser src) [] of
        None \<Rightarrow> None
      | Some (rules, st) \<Rightarrow>
          if errors st \<noteq> [] \<and> rules = [] then Some \<lparr>css = None, css_errors = errors st\<rparr>
          else Some \<lparr>css = Some (emit rules), css_errors = errors st\<rparr>)"

section \<open>Steps of the parser\<close>

lemma parseFunctionBlock_loop_frame:
  "tokens (snd (parseFunctionBlock_loop e st ps)) = tokens st
   \<and> pos st \<le> pos (snd (parseFunctionBlock_loop e st ps))"
proof (induction e st ps rule: parseFunctionBlock_loop.induct)
  case (1 e st ps)
  let ?st2 = "snd (eat (snd (eat st)))"
  let ?st3 = "eat_comma (snd (parseValue e ?st2))"
  show ?case
  proof (cases "eof st \<or> peek_v st 0 = Some (js ''end'')")
    case True
    then show ?thesis by (subst (1 2) parseFunctionBlock_loop.simps) simp
  next
    case stop: False
    show ?thesis
    proof (cases "peek_t st 0 = Some IDENT")
      case ident: True
      show ?thesis
      proof (cases "peek_v (snd (eat st)) 0 = Some (js ''='')")
        case True
        have f: "tokens ?st3 = tokens st" "pos st \<le> pos ?st3"
          using parseValue_frame [of e ?st2] pos_eat_comma [of "snd (parseValue e ?st2)"]
          by simp_all
        from "1.IH" (1) [OF stop ident True] f stop ident True show ?thesis
          by (subst (1 2) parseFunctionBlock_loop.simps) simp
      next
        case False
        have f: "pos st \<le> pos (eat_comma (snd (eat st)))"
          using pos_eat_comma [of "snd (eat st)"] by simp
        from "1.IH" (2) [OF stop ident False] f stop ident False show ?thesis
          by (subst (1 2) parseFunctionBlock_loop.simps) simp
      qed
    next
      case False
      from "1.IH" (3) [OF stop False] stop False show ?thesis
        by (subst (1 2) parseFunctionBlock_loop.simps) (simp add: Suc_leD)
    qed
  qed
qed

lemma parseFunctionBlock_frame:
  "tokens (snd (parseFunctionBlock e st)) = tokens st
   \<and> pos st \<le> pos (snd (parseFunctionBlock e st))"
proof -
  let ?st1 = "snd (expect (js ''function'') st)"
  let ?st2 = "snd (expect (js ''('') ?st1)"
  let ?st3 = "snd (expect (js '')'') ?st2)"
  let ?st4 = "snd (parseFunctionBlock_loop e ?st3 [])"
  let ?st5 = "snd (expect (js ''end'') ?st4)"
  have "pos st \<le> pos ?st1" by (rule pos_expect)
  also have "\<dots> \<le> pos ?st2" by (rule pos_expect)
  also have "\<dots> \<le> pos ?st3" by (rule pos_expect)
  also have "\<dots> \<le> pos ?st4" using parseFunctionBlock_loop_frame [of e ?st3 "[]"] by simp
  also have "\<dots> \<le> pos ?st5" by (rule pos_expect)
  finally have p: "pos st \<le> pos ?st5" .
  have t: "tokens ?st5 = tokens st" using parseFunctionBlock_loop_frame [of e ?st3 "[]"] by simp
  show ?thesis using p t by (simp add: parseFunctionBlock_def Let_def)
qed

lemma bracket_selector_frame:
  "tokens (snd (bracket_selector st)) = tokens st \<and> pos st < pos (snd (bracket_selector st))"
  by (simp add: bracket_selector_def Let_def)

lemma remaining_eat: "\<not> eof st \<Longrightarrow> Suc (remaining (snd (eat st))) = remaining st"
  by (simp add: remaining_def eof_def)

lemma remaining_le:
  "tokens st' = tokens st \<Longrightarrow> pos st \<le> pos st' \<Longrightarrow> remaining st' \<le> remaining st"
  by (simp add: remaining_def)

lemma remaining_expect: "remaining (snd (expect x st)) \<le> remaining st"
  by (rule remaining_le) (simp_all add: pos_expect)

lemma remaining_eat_comma: "remaining (eat_comma st) \<le> remaining st"
  by (rule remaining_le) (simp_all add: pos_eat_comma)

lemma remaining_eat_le: "remaining (snd (eat st)) \<le> remaining st"
  by (rule remaining_le) simp_all

lemma peek_v_not_eof: "peek_v st 0 = Some x \<Longrightarrow> \<not> eof st"
  by (simp add: peek_v_def peek_def eof_def split: if_splits)

lemma peek_t_not_eof: "peek_t st 0 = Some x \<Longrightarrow> \<not> eof st"
  by (simp add: peek_t_def peek_def eof_def split: if_splits)

lemma steps_parseColor_args_bound:
  "steps_parseColor_args st + remaining (snd (parseColor_args st args)) \<le> remaining st + 1"
proof (induction st arbitrary: args rule: steps_parseColor_args.induct)
  case (1 st)
  show ?case
  proof (cases "eof st \<or> peek_v st 0 = Some (js '')'')")
    case True
    then show ?thesis
      by (subst steps_parseColor_args.simps, subst parseColor_args.simps) simp
  next
    case False
    then have ne: "\<not> eof st" by simp
    then obtain t where t: "fst (eat st) = Some t"
      by (auto simp: eat_def peek_def eof_def)
    have ih: "steps_parseColor_args (snd (eat st))
                + remaining (snd (parseColor_args (snd (eat st)) a)) \<le> remaining st" for a
      using 1 [OF False, of a] remaining_eat [OF ne] by simp
    show ?thesis
      using False t ih
      by (subst steps_parseColor_args.simps, subst parseColor_args.simps) simp
  qed
qed

lemma steps_parseColor_bound:
  "steps_parseColor st + remaining (snd (parseColor e st)) \<le> remaining st + 2"
proof -
  let ?st4 = "snd (expect (js ''('') (snd (eat (snd (expect (js ''.'') (snd (eat st)))))))"
  let ?st5 = "snd (parseColor_args ?st4 [])"
  have a: "steps_parseColor_args ?st4 + remaining ?st5 \<le> remaining ?st4 + 1"
    by (rule steps_parseColor_args_bound)
  have "remaining ?st4 \<le> remaining (snd (eat (snd (expect (js ''.'') (snd (eat st))))))"
    by (rule remaining_expect)
  also have "\<dots> \<le> remaining (snd (expect (js ''.'') (snd (eat st))))" by (rule remaining_eat_le)
  also have "\<dots> \<le> remaining (snd (eat st))" by (rule remaining_expect)
  also have "\<dots> \<le> remaining st" by (rule remaining_eat_le)
  finally have b: "remaining ?st4 \<le> remaining st" .
  have "remaining (snd (parseColor e st)) = remaining (snd (expect (js '')'') ?st5))"
    using color_value_frame [of e _ _ "snd (expect (js '')'') ?st5)"]
    by (simp add: parseColor_def Let_def remaining_def)
  also have "\<dots> \<le> remaining ?st5" by (rule remaining_expect)
  finally show ?thesis using a b by (simp add: steps_parseColor_def)
qed

lemma steps_parseValue_loop_bound:
  "steps_parseValue_loop st d + remaining (snd (parseValue_loop st d val prev))
     \<le> remaining st + 1"
proof (induction st d arbitrary: val prev rule: steps_parseValue_loop.induct)
  case (1 st d)
  show ?case
  proof (cases "eof st \<or> shouldStopValue st d")
    case True
    then show ?thesis
      by (subst steps_parseValue_loop.simps, subst parseValue_loop.simps) simp
  next
    case False
    then have ne: "\<not> eof st" by simp
    then obtain n where n: "peek st 0 = Some n" by (auto simp: peek_def eof_def)
    have ih: "steps_parseValue_loop (snd (eat st)) (update_depth d (tok_v n))
                + remaining (snd (parseValue_loop (snd (eat st)) (update_depth d (tok_v n)) v p))
              \<le> remaining st" for v p
      using 1 [OF False n, of v p] remaining_eat [OF ne] by simp
    show ?thesis
      using False n ih
      by (subst steps_parseValue_loop.simps, subst parseValue_loop.simps) simp
  qed
qed

lemma steps_parseValue_bound:
  "steps_parseValue st + remaining (snd (parseValue e st)) \<le> remaining st + 3"
proof (cases "peek st 0")
  case None
  then show ?thesis by (auto simp: steps_parseValue_def parseValue_def)
next
  case (Some t)
  show ?thesis
  proof (cases "tok_t t = IDENT \<and> tok_v t = js ''color'' \<and> peek_v st 1 = Some (js ''.'')")
    case True
    then show ?thesis
      using Some steps_parseColor_bound [of st e]
      by (auto simp: steps_parseValue_def parseValue_def)
  next
    case c1: False
    show ?thesis
    proof (cases "tok_t t = IDENT
                    \<and> (peek_v st 1 = Some (js ''='') \<or> peek_v st 1 = Some (js ''{''))")
      case True
      then show ?thesis
        using Some c1 by (auto simp: steps_parseValue_def parseValue_def)
    next
      case c2: False
      show ?thesis
      proof (cases "tok_t t = IDENT \<and> (tok_v t = js ''end'' \<or> tok_v t = js ''function'')")
        case True
        then show ?thesis
          using Some c1 c2 by (auto simp: steps_parseValue_def parseValue_def)
      next
        case c3: False
        have "steps_parseValue st
                = 1 + steps_parseValue_loop st \<lparr>paren = 0, brack = 0, brace = 0\<rparr>"
          using Some c1 c2 c3 by (auto simp: steps_parseValue_def)
        moreover have "snd (parseValue e st)
                = snd (parseValue_loop st \<lparr>paren = 0, brack = 0, brace = 0\<rparr> [] None)"
          using Some c1 c2 c3 by (auto simp: parseValue_def)
        ultimately show ?thesis
          using steps_parseValue_loop_bound
                  [of st "\<lparr>paren = 0, brack = 0, brace = 0\<rparr>" "[]" None]
          by simp
      qed
    qed
  qed
qed

lemma steps_parseFunctionBlock_loop_bound:
  "steps_parseFunctionBlock_loop e st + 2 * remaining (snd (parseFunctionBlock_loop e st ps))
     \<le> 2 * remaining st + 1"
proof (induction e st arbitrary: ps rule: steps_parseFunctionBlock_loop.induct)
  case (1 e st)
  let ?st1 = "snd (eat st)"
  let ?st2 = "snd (eat ?st1)"
  let ?st3 = "snd (parseValue e ?st2)"
  show ?case
  proof (cases "eof st \<or> peek_v st 0 = Some (js ''end'')")
    case True
    then show ?thesis
      by (subst steps_parseFunctionBlock_loop.simps, subst parseFunctionBlock_loop.simps) simp
  next
    case stop: False
    then have ne: "\<not> eof st" by simp
    show ?thesis
    proof (cases "peek_t st 0 = Some IDENT")
      case ident: True
      show ?thesis
      proof (cases "peek_v ?st1 0 = Some (js ''='')")
        case True
        have r2: "remaining ?st2 + 2 = remaining st"
          using remaining_eat [OF ne] remaining_eat [OF peek_v_not_eof [OF True]] by simp
        have v: "steps_parseValue ?st2 + remaining ?st3 \<le> remaining ?st2 + 3"
          by (rule steps_parseValue_bound)
        have m: "remaining ?st3 \<le> remaining ?st2"
          using parseValue_frame [of e ?st2] by (simp add: remaining_le)
        have c: "remaining (eat_comma ?st3) \<le> remaining ?st3" by (rule remaining_eat_comma)
        have "steps_parseFunctionBlock_loop e (eat_comma ?st3)
                + 2 * remaining (snd (parseFunctionBlock_loop e (eat_comma ?st3) p))
              \<le> 2 * remaining (eat_comma ?st3) + 1" for p
          by (rule "1.IH" (1) [OF stop ident True])
        from this [of "push_decl (the (peek_v st 0)) (fst (parseValue e ?st2)) ps"] r2 v m c
        show ?thesis
          using stop ident True
          by (subst steps_parseFunctionBlock_loop.simps, subst parseFunctionBlock_loop.simps)
             simp
      next
        case False
        have "remaining (eat_comma ?st1) \<le> remaining ?st1" by (rule remaining_eat_comma)
        with "1.IH" (2) [OF stop ident False, of ps] remaining_eat [OF ne]
        show ?thesis
          using stop ident False
          by (subst steps_parseFunctionBlock_loop.simps, subst parseFunctionBlock_loop.simps)
             simp
      qed
    next
      case False
      with "1.IH" (3) [OF stop False, of ps] remaining_eat [OF ne]
      show ?thesis
        using stop
        by (subst steps_parseFunctionBlock_loop.simps, subst parseFunctionBlock_loop.simps)
           simp
    qed
  qed
qed

lemma steps_parseFunctionBlock_bound:
  "steps_parseFunctionBlock e st + 2 * remaining (snd (parseFunctionBlock e st))
     \<le> 2 * remaining st + 2"
proof -
  let ?st1 = "snd (expect (js ''function'') st)"
  let ?st2 = "snd (expect (js ''('') ?st1)"
  let ?st3 = "snd (expect (js '')'') ?st2)"
  let ?st4 = "snd (parseFunctionBlock_loop e ?st3 [])"
  have "remaining ?st3 \<le> remaining ?st2" by (rule remaining_expect)
  also have "\<dots> \<le> remaining ?st1" by (rule remaining_expect)
  also have "\<dots> \<le> remaining st" by (rule remaining_expect)
  finally have a: "remaining ?st3 \<le> remaining st" .
  have b: "steps_parseFunctionBlock_loop e ?st3 + 2 * remaining ?st4 \<le> 2 * remaining ?st3 + 1"
    by (rule steps_parseFunctionBlock_loop_bound)
  have c: "remaining (snd (expect (js ''end'') ?st4)) \<le> remaining ?st4"
    by (rule remaining_expect)
  show ?thesis using a b c
    by (simp add: steps_parseFunctionBlock_def parseFunctionBlock_def Let_def)
qed

lemma parseBlock_steps_left_aux:
  "(\<forall>path st r. parseBlock fuel e path st = Some r \<longrightarrow> snd (snd r) < fuel)
   \<and> (\<forall>path st ps cs r. parseBlock_loop fuel e path st ps cs = Some r \<longrightarrow> snd (snd r) < fuel)"
proof (induction fuel rule: less_induct)
  case (less fuel)
  note block = less.IH [THEN conjunct1, rule_format]
  note loop = less.IH [THEN conjunct2, rule_format]
  show ?case
  proof (cases fuel)
    case 0
    then show ?thesis by simp
  next
    case (Suc f)
    have l: "snd (snd r) < Suc f"
      if "parseBlock_loop f' e path st ps cs = Some r" and "f' \<le> f" for f' path st ps cs r
      using loop [of f' path st ps cs r] that Suc by simp
    show ?thesis
    proof (intro conjI allI impI)
      fix path :: jsstring and st :: parser and r
      assume "parseBlock fuel e path st = Some r"
      then show "snd (snd r) < fuel"
        using Suc by (auto split: option.splits dest: l [OF _ order_refl])
    next
      fix path :: jsstring and st :: parser and ps :: "decl list" and cs :: "node list" and r
      assume a: "parseBlock_loop fuel e path st ps cs = Some r"
      show "snd (snd r) < fuel"
        using a unfolding Suc
        by (simp only: parseBlock_loop.simps Let_def split: if_splits option.splits prod.splits)
           (auto dest!: l)
    qed
  qed
qed

lemma parseBlock_steps_left:
  assumes "parseBlock fuel e path st = Some (res, st', left)"
  shows "left < fuel"
  using parseBlock_steps_left_aux [of fuel e, THEN conjunct1, rule_format, OF assms] by simp

lemma parseBlock_steps_aux:
  "(\<forall>path st. 3 * remaining st + 2 \<le> fuel \<longrightarrow>
      (\<exists>res st' left. parseBlock fuel e path st = Some (res, st', left)
         \<and> tokens st' = tokens st \<and> pos st \<le> pos st' \<and> left < fuel
         \<and> fuel + 3 * remaining st' \<le> left + 3 * remaining st + 2))
   \<and> (\<forall>path st ps cs. 3 * remaining st + 1 \<le> fuel \<longrightarrow>
      (\<exists>res st' left. parseBlock_loop fuel e path st ps cs = Some (res, st', left)
         \<and> tokens st' = tokens st \<and> pos st \<le> pos st' \<and> left < fuel
         \<and> fuel + 3 * remaining st' \<le> left + 3 * remaining st + 1))"
proof (induction fuel rule: less_induct)
  case (less fuel)
  note block = less.IH [THEN conjunct1, rule_format]
  note loop = less.IH [THEN conjunct2, rule_format]
  show ?case
  proof (intro conjI allI impI)
    fix path :: jsstring and st :: parser
    assume a: "3 * remaining st + 2 \<le> fuel"
    then obtain f where f: "fuel = Suc f" by (cases fuel) simp_all
    let ?st1 = "snd (expect (js ''{'') st)"
    have r1: "remaining ?st1 \<le> remaining st" by (rule remaining_expect)
    then have "3 * remaining ?st1 + 1 \<le> f" using a f by simp
    from loop [OF _ this, of path "[]" "[]"] f obtain res st' left where
      r: "parseBlock_loop f e path ?st1 [] [] = Some (res, st', left)"
      and t: "tokens st' = tokens ?st1" and p: "pos ?st1 \<le> pos st'" and l: "left < f"
      and c: "f + 3 * remaining st' \<le> left + 3 * remaining ?st1 + 1"
      by auto
    let ?st2 = "snd (expect (js ''}'') st')"
    have "pos st \<le> pos ?st2"
      using p pos_expect [of st "js ''{''"] pos_expect [of st' "js ''}''"] by simp
    moreover have "remaining ?st2 \<le> remaining st'" by (rule remaining_expect)
    ultimately show "\<exists>res st' left. parseBlock fuel e path st = Some (res, st', left)
         \<and> tokens st' = tokens st \<and> pos st \<le> pos st' \<and> left < fuel
         \<and> fuel + 3 * remaining st' \<le> left + 3 * remaining st + 2"
      using r t l c r1 f by simp
  next
    fix path :: jsstring and st :: parser and ps :: "decl list" and cs :: "node list"
    assume a: "3 * remaining st + 1 \<le> fuel"
    then obtain f where f: "fuel = Suc f" by (cases fuel) simp_all
    have step: "\<exists>res st' left. parseBlock_loop fuel e path st ps cs = Some (res, st', left)
         \<and> tokens st' = tokens st \<and> pos st \<le> pos st' \<and> left < fuel
         \<and> fuel + 3 * remaining st' \<le> left + 3 * remaining st + 1"
      if eq: "parseBlock_loop (Suc f) e path st ps cs = parseBlock_loop f' e path X ps' cs'"
        and tX: "tokens X = tokens st" and pX: "pos st \<le> pos X" and le: "f' \<le> f"
        and cost: "Suc f + 3 * remaining X \<le> f' + 3 * remaining st"
      for f' X ps' cs'
    proof -
      have "3 * remaining X + 1 \<le> f'" using cost a f by simp
      moreover have "f' < fuel" using le f by simp
      ultimately obtain res st' left where
        r: "parseBlock_loop f' e path X ps' cs' = Some (res, st', left)"
        and t: "tokens st' = tokens X" and p: "pos X \<le> pos st'" and l: "left < f'"
        and c: "f' + 3 * remaining st' \<le> left + 3 * remaining X + 1"
        using loop [of f' X path ps' cs'] by auto
      show ?thesis using eq r t p l c tX pX le cost f by simp
    qed
    show "\<exists>res st' left. parseBlock_loop fuel e path st ps cs = Some (res, st', left)
         \<and> tokens st' = tokens st \<and> pos st \<le> pos st' \<and> left < fuel
         \<and> fuel + 3 * remaining st' \<le> left + 3 * remaining st + 1"
    proof (cases "eof st \<or> peek_v st 0 = Some (js ''}'')")
      case True
      then show ?thesis using f by simp
    next
      case stop: False
      then have ne: "\<not> eof st" by simp
      have r0: "Suc (remaining (snd (eat st))) = remaining st" by (rule remaining_eat [OF ne])
      show ?thesis
      proof (cases "peek_v st 0 = Some (js ''['')")
        case bracket: True
        let ?sel = "fst (bracket_selector st)"
        let ?st1 = "snd (expect (js ''='') (snd (expect (js '']'') (snd (bracket_selector st)))))"
        let ?childSel = "resolveSelector path ?sel"
        have t1: "tokens ?st1 = tokens st"
          using bracket_selector_frame [of st] by simp
        have p1: "pos st < pos ?st1"
          using bracket_selector_frame [of st]
            pos_expect [of "snd (bracket_selector st)" "js '']''"]
            pos_expect [of "snd (expect (js '']'') (snd (bracket_selector st)))" "js ''=''"]
          by simp
        have r1: "remaining ?st1 + 1 \<le> remaining st"
          using t1 p1 ne by (simp add: remaining_def eof_def)
        show ?thesis
        proof (cases "peek_v ?st1 0 = Some (js ''{'')")
          case True
          have "3 * remaining ?st1 + 2 \<le> f" using r1 a f by simp
          from block [OF _ this, of ?childSel] f obtain cps cch st2 left where
            r: "parseBlock f e ?childSel ?st1 = Some ((cps, cch), st2, left)"
            and t2: "tokens st2 = tokens ?st1" and p2: "pos ?st1 \<le> pos st2" and l: "left < f"
            and c: "f + 3 * remaining st2 \<le> left + 3 * remaining ?st1 + 2"
            by auto
          have m: "min f left = left" using l by simp
          have eq: "parseBlock_loop (Suc f) e path st ps cs
                      = parseBlock_loop left e path (eat_comma st2) ps
                          (cs @ [Node ?childSel cps cch])"
            using stop bracket True r m by (simp add: Let_def)
          have "remaining (eat_comma st2) \<le> remaining st2" by (rule remaining_eat_comma)
          then have cost: "Suc f + 3 * remaining (eat_comma st2) \<le> left + 3 * remaining st"
            using c r1 by simp
          have "pos st \<le> pos (eat_comma st2)"
            using p1 p2 pos_eat_comma [of st2] by simp
          from step [OF eq _ this _ cost] t1 t2 l show ?thesis by simp
        next
          case False
          have eq: "parseBlock_loop (Suc f) e path st ps cs
                      = parseBlock_loop f e path (eat_comma ?st1) ps cs"
            using stop bracket False by (simp add: Let_def)
          have "remaining (eat_comma ?st1) \<le> remaining ?st1" by (rule remaining_eat_comma)
          then have cost: "Suc f + 3 * remaining (eat_comma ?st1) \<le> f + 3 * remaining st"
            using r1 by simp
          have "pos st \<le> pos (eat_comma ?st1)"
            using p1 pos_eat_comma [of ?st1] by simp
          from step [OF eq _ this _ cost] t1 show ?thesis by simp
        qed
      next
        case nobracket: False
        show ?thesis
        proof (cases "peek_t st 0 = Some IDENT")
          case ident: True
          let ?key = "the (peek_v st 0)"
          let ?st1 = "snd (eat st)"
          show ?thesis
          proof (cases "peek_v ?st1 0 = Some (js ''='')")
            case eqs: True
            let ?st2 = "snd (eat ?st1)"
            have r2: "remaining ?st2 + 2 = remaining st"
              using r0 remaining_eat [OF peek_v_not_eof [OF eqs]] by simp
            show ?thesis
            proof (cases "isPseudo ?key \<and> peek_v ?st2 0 = Some (js ''function'')")
              case True
              let ?st3 = "snd (parseFunctionBlock e ?st2)"
              let ?T = "steps_parseFunctionBlock e ?st2"
              have b: "?T + 2 * remaining ?st3 \<le> 2 * remaining ?st2 + 2"
                by (rule steps_parseFunctionBlock_bound)
              have m: "remaining ?st3 \<le> remaining ?st2"
                using parseFunctionBlock_frame [of e ?st2] by (simp add: remaining_le)
              have k: "remaining (eat_comma ?st3) \<le> remaining ?st3"
                by (rule remaining_eat_comma)
              have eq: "parseBlock_loop (Suc f) e path st ps cs
                          = parseBlock_loop (f - ?T) e path (eat_comma ?st3) ps
                              (cs @ [Node (pseudoSelector e path ?key)
                                       (fst (parseFunctionBlock e ?st2)) []])"
                using stop nobracket ident eqs True by (simp add: Let_def)
              have cost: "Suc f + 3 * remaining (eat_comma ?st3) \<le> (f - ?T) + 3 * remaining st"
                using b m k r2 a f by simp
              have "tokens (eat_comma ?st3) = tokens st" and "pos st \<le> pos (eat_comma ?st3)"
                using parseFunctionBlock_frame [of e ?st2] pos_eat_comma [of ?st3]
                by simp_all
              from step [OF eq this _ cost] show ?thesis by simp
            next
              case nopseudo: False
              show ?thesis
              proof (cases "peek_v ?st2 0 = Some (js ''{'')")
                case True
                let ?childSel = "resolveSelector path (hyphenate ?key)"
                have "3 * remaining ?st2 + 2 \<le> f" using r2 a f by simp
                from block [OF _ this, of ?childSel] f obtain cps cch st3 left where
                  r: "parseBlock f e ?childSel ?st2 = Some ((cps, cch), st3, left)"
                  and t3: "tokens st3 = tokens ?st2" and p3: "pos ?st2 \<le> pos st3"
                  and l: "left < f"
                  and c: "f + 3 * remaining st3 \<le> left + 3 * remaining ?st2 + 2"
                  by auto
                have m: "min f left = left" using l by simp
                have eq: "parseBlock_loop (Suc f) e path st ps cs
                            = parseBlock_loop left e path (eat_comma st3) ps
                                (cs @ [Node ?childSel cps cch])"
                  using stop nobracket ident eqs nopseudo True r m
                  by (auto simp: Let_def)
                have "remaining (eat_comma st3) \<le> remaining st3" by (rule remaining_eat_comma)
                then have cost: "Suc f + 3 * remaining (eat_comma st3) \<le> left + 3 * remaining st"
                  using c r2 by simp
                have "tokens (eat_comma st3) = tokens st" and "pos st \<le> pos (eat_comma st3)"
                  using t3 p3 pos_eat_comma [of st3] by simp_all
                from step [OF eq this _ cost] l show ?thesis by simp
              next
                case False
                let ?st3 = "snd (parseValue e ?st2)"
                let ?T = "steps_parseValue ?st2"
                have b: "?T + remaining ?st3 \<le> remaining ?st2 + 3"
                  by (rule steps_parseValue_bound)
                have m: "remaining ?st3 \<le> remaining ?st2"
                  using parseValue_frame [of e ?st2] by (simp add: remaining_le)
                have k: "remaining (eat_comma ?st3) \<le> remaining ?st3"
                  by (rule remaining_eat_comma)
                have eq: "parseBlock_loop (Suc f) e path st ps cs
                            = parseBlock_loop (f - ?T) e path (eat_comma ?st3)
                                (push_decl ?key (fst (parseValue e ?st2)) ps) cs"
                  using stop nobracket ident eqs nopseudo False by (auto simp: Let_def)
                have cost: "Suc f + 3 * remaining (eat_comma ?st3) \<le> (f - ?T) + 3 * remaining st"
                  using b m k r2 a f by simp
                have "tokens (eat_comma ?st3) = tokens st" and "pos st \<le> pos (eat_comma ?st3)"
                  using parseValue_frame [of e ?st2] pos_eat_comma [of ?st3]
                  by simp_all
                from step [OF eq this _ cost] show ?thesis by simp
              qed
            qed
          next
            case False
            have eq: "parseBlock_loop (Suc f) e path st ps cs
                        = parseBlock_loop f e path (eat_comma ?st1) ps cs"
              using stop nobracket ident False by (simp add: Let_def)
            have "remaining (eat_comma ?st1) \<le> remaining ?st1" by (rule remaining_eat_comma)
            then have cost: "Suc f + 3 * remaining (eat_comma ?st1) \<le> f + 3 * remaining st"
              using r0 by simp
            have "tokens (eat_comma ?st1) = tokens st" and "pos st \<le> pos (eat_comma ?st1)"
              using pos_eat_comma [of ?st1] by simp_all
            from step [OF eq this _ cost] show ?thesis by simp
          qed
        next
          case False
          have eq: "parseBlock_loop (Suc f) e path st ps cs
                      = parseBlock_loop f e path (snd (eat st)) ps cs"
            using stop nobracket False by simp
          have cost: "Suc f + 3 * remaining (snd (eat st)) \<le> f + 3 * remaining st"
            using r0 by simp
          have "tokens (snd (eat st)) = tokens st" and "pos st \<le> pos (snd (eat st))"
            by simp_all
          from step [OF eq this _ cost] show ?thesis by simp
        qed
      qed
    qed
  qed
qed

lemma top_selector_frame:
  assumes "top_selector st = Some (sel, st1)"
  shows "tokens st1 = tokens st \<and> pos st < pos st1"
proof (cases "peek_t st 0 = Some IDENT")
  case True
  with assms show ?thesis by (auto simp: top_selector_def)
next
  case False
  with assms have "st1 = snd (expect (js '']'') (snd (bracket_selector st)))"
    by (auto simp: top_selector_def split: if_splits)
  then show ?thesis
    using bracket_selector_frame [of st] pos_expect [of "snd (bracket_selector st)" "js '']''"]
    by simp
qed

lemma parseBlock_steps:
  assumes "3 * remaining st + 2 \<le> fuel"
  shows "\<exists>res st' left. parseBlock fuel e path st = Some (res, st', left)
           \<and> tokens st' = tokens st \<and> pos st \<le> pos st' \<and> left < fuel
           \<and> fuel + 3 * remaining st' \<le> left + 3 * remaining st + 2"
  using parseBlock_steps_aux [of fuel e] assms by blast

lemma parse_total:
  "3 * remaining st + 1 \<le> fuel \<Longrightarrow>
     \<exists>rules' st'. parse fuel e st rules = Some (rules', st')
        \<and> tokens st' = tokens st \<and> pos st \<le> pos st'"
proof (induction fuel arbitrary: st rules rule: less_induct)
  case (less fuel)
  from less.prems obtain f where f: "fuel = Suc f" by (cases fuel) simp_all
  have cont: "\<exists>rules' st''. parse f' e st' rs = Some (rules', st'')
                \<and> tokens st'' = tokens st \<and> pos st \<le> pos st''"
    if "tokens st' = tokens st" and "pos st \<le> pos st'" and "f' \<le> f"
      and "3 * remaining st' + 1 \<le> f'"
    for st' :: parser and rs f'
  proof -
    have "f' < fuel" using that f by simp
    from less.IH [OF this that(4), of rs] that show ?thesis by auto
  qed
  show ?case
  proof (cases "eof st")
    case True
    then show ?thesis using f by simp
  next
    case ne: False
    have r0: "Suc (remaining (snd (eat st))) = remaining st" by (rule remaining_eat [OF ne])
    show ?thesis
    proof (cases "top_selector st")
      case None
      have "3 * remaining (snd (eat st)) + 1 \<le> f" using r0 less.prems f by simp
      from cont [OF _ _ _ this] show ?thesis using ne None f by simp
    next
      case (Some a)
      obtain sel st1 where a: "a = (sel, st1)" by (cases a)
      with Some top_selector_frame [of st sel st1]
      have t1: "tokens st1 = tokens st" and p1: "pos st < pos st1" by simp_all
      have r1: "remaining st1 + 1 \<le> remaining st"
        using t1 p1 ne by (simp add: remaining_def eof_def)
      show ?thesis
      proof (cases "peek_v st1 0 = Some (js ''='')")
        case eq: True
        let ?st2 = "snd (eat st1)"
        have t2: "tokens ?st2 = tokens st" and p2: "pos st \<le> pos ?st2" using t1 p1 by simp_all
        have r2: "remaining ?st2 + 2 \<le> remaining st"
          using r1 remaining_eat [OF peek_v_not_eof [OF eq]] by simp
        show ?thesis
        proof (cases "peek_v ?st2 0 = Some (js ''{'')")
          case True
          have "3 * remaining ?st2 + 2 \<le> f" using r2 less.prems f by simp
          from parseBlock_steps [OF this, of e sel] obtain ps children st3 left where
            r: "parseBlock f e sel ?st2 = Some ((ps, children), st3, left)"
            and t3: "tokens st3 = tokens ?st2" and p3: "pos ?st2 \<le> pos st3"
            and l: "left < f"
            and c: "f + 3 * remaining st3 \<le> left + 3 * remaining ?st2 + 2"
            by auto
          have m: "min f left = left" using l by simp
          have "3 * remaining st3 + 1 \<le> left" using c r2 less.prems f by simp
          moreover have "tokens st3 = tokens st" and "pos st \<le> pos st3"
            using t3 p3 t2 p2 by simp_all
          ultimately show ?thesis
            using cont [of st3 left] l ne Some a eq True r m f by simp
        next
          case False
          have "3 * remaining ?st2 + 1 \<le> f" using r2 less.prems f by simp
          from cont [OF t2 p2 _ this] show ?thesis using ne Some a eq False f by simp
        qed
      next
        case False
        have "3 * remaining st1 + 1 \<le> f" using r1 less.prems f by simp
        from cont [OF t1 _ _ this] p1 show ?thesis using ne Some a False f by simp
      qed
    qed
  qed
qed

lemma tokenize_length: "length (tokenize src) \<le> length src"
proof (induction src rule: tokenize.induct)
  case (1 rest)
  show ?case
  proof (cases "rest = []")
    case True
    then show ?thesis by (subst tokenize.simps) auto
  next
    case ne: False
    show ?thesis
    proof (cases "ch rest 0 = js ''-'' \<and> ch rest 1 = js ''-''")
      case True
      then have "rest \<noteq> [] \<and> is_not_newline (hd rest)"
        by (auto simp: js_def is_not_newline_def dest: ch0_hd)
      then have "length (dropWhile is_not_newline rest) < length rest"
        by (simp add: dropWhile_shorter)
      with "1.IH" (1) [OF ne True] ne True show ?thesis
        by (subst tokenize.simps) auto
    next
      case c1: False
      show ?thesis
      proof (cases "test is_space (ch rest 0)")
        case True
        then have "rest \<noteq> [] \<and> is_space (hd rest)" by (rule test_ch0_hd)
        then have "length (dropWhile is_space rest) < length rest"
          by (simp add: dropWhile_shorter)
        with "1.IH" (2) [OF ne c1 True] ne c1 True show ?thesis
          by (subst tokenize.simps) auto
      next
        case c2: False
        show ?thesis
        proof (cases "ch rest 0 = js ''0'' \<and> (ch rest 1 = js ''x'' \<or> ch rest 1 = js ''X'')")
          case True
          have "length (dropWhile is_hex_digit (drop 2 rest)) \<le> length (drop 2 rest)"
            by (rule length_dropWhile_le)
          then have "length (dropWhile is_hex_digit (drop 2 rest)) < length rest"
            using ne by (cases rest) simp_all
          with "1.IH" (3) [OF ne c1 c2 True] ne c1 c2 True show ?thesis
            by (subst tokenize.simps) auto
        next
          case c3: False
          show ?thesis
          proof (cases "ch rest 0 = [34] \<or> ch rest 0 = [39]")
            case True
            have "length (snd (scan_string (hd rest) (tl rest) [])) \<le> length (tl rest)"
              by (rule scan_string_length)
            then have "length (drop 1 (snd (scan_string (hd rest) (tl rest) []))) < length rest"
              using ne by (cases rest) simp_all
            with "1.IH" (4) [OF ne c1 c2 c3 True] ne c1 c2 c3 True show ?thesis
              by (subst tokenize.simps) auto
          next
            case c4: False
            show ?thesis
            proof (cases "number_start rest")
              case True
              from number_start_shorter [OF True] "1.IH" (5) [OF ne c1 c2 c3 c4 True]
                ne c1 c2 c3 c4 True
              show ?thesis by (subst tokenize.simps) auto
            next
              case c5: False
              show ?thesis
              proof (cases "test is_ident_start (ch rest 0)")
                case True
                then have "rest \<noteq> [] \<and> is_ident_start (hd rest)" by (rule test_ch0_hd)
                then have "rest \<noteq> [] \<and> is_ident_char (hd rest)"
                  by (auto simp: is_ident_start_def is_ident_char_def)
                then have "length (dropWhile is_ident_char rest) < length rest"
                  by (simp add: dropWhile_shorter)
                with "1.IH" (6) [OF ne c1 c2 c3 c4 c5 True] ne c1 c2 c3 c4 c5 True
                show ?thesis by (subst tokenize.simps) auto
              next
                case c6: False
                have step: "tokenize rest = Tok PUNCT (take 1 rest) # tokenize (drop 1 rest)"
                  using ne c1 c2 c3 c4 c5 c6 by (subst tokenize.simps) auto
                have "length (drop 1 rest) < length rest" using ne by (cases rest) simp_all
                with "1.IH" (7) [OF ne c1 c2 c3 c4 c5 c6]
                have "Suc (length (tokenize (drop 1 rest))) \<le> length rest" by linarith
                then show ?thesis by (simp add: step)
              qed
            qed
          qed
        qed
      qed
    qed
  qed
qed

lemma new_Parser_length: "length (tokens (new_Parser src)) \<le> length src"
proof -
  have "length (tokens (new_Parser src)) \<le> length (tokenize src)"
    by (simp add: new_Parser_def)
  also have "\<dots> \<le> length src" by (rule tokenize_length)
  finally show ?thesis .
qed

lemma emit_Nil: "emit [] = []"
  by (simp add: emit_def join_def)

section \<open>Properties of the parser and the flattener\<close>

lemma collectChildren_flatten:
  "collectChildren children rules = rules @ concat (map flatten_spec children)"
  by (induction children rules rule: collectChildren.induct) (simp_all add: Let_def)

lemma join_nonempty: "parts \<noteq> [] \<Longrightarrow> hd parts \<noteq> [] \<Longrightarrow> join sep parts \<noteq> []"
  by (cases parts) (simp_all add: join_def)

lemma emit_decls_nonempty: "ps \<noteq> [] \<Longrightarrow> emit_decls ps \<noteq> []"
  by (cases ps) (simp_all add: emit_decls_def join_def js_def)

lemma collectChildren_visible:
  "list_all visible rules \<Longrightarrow> list_all visible (collectChildren children rules)"
  by (induction children rules rule: collectChildren.induct)
     (simp_all add: Let_def visible_def emit_decls_nonempty)

lemma push_block_visible:
  "list_all visible rules \<Longrightarrow> list_all visible (push_block sel ps children rules)"
  by (simp add: push_block_def collectChildren_visible visible_def emit_decls_nonempty)

lemma parse_visible:
  "parse fuel e st rules = Some (rules', st') \<Longrightarrow> list_all visible rules
     \<Longrightarrow> list_all visible rules'"
proof (induction fuel arbitrary: st rules rule: less_induct)
  case (less fuel)
  from less.prems(1) obtain f where f: "fuel = Suc f" by (cases fuel) simp_all
  have ih: "list_all visible rules'"
    if "parse f' e st1 rs = Some (rules', st')" and "f' \<le> f" and "list_all visible rs"
    for f' st1 rs
  proof -
    have "f' < fuel" using that(2) f by simp
    from less.IH [OF this that(1) that(3)] show ?thesis .
  qed
  show ?case
  proof (cases "eof st")
    case True
    with less.prems f show ?thesis by simp
  next
    case ne: False
    show ?thesis
    proof (cases "top_selector st")
      case None
      with less.prems ne f ih [of f "snd (eat st)" rules] show ?thesis by simp
    next
      case (Some a)
      obtain sel st1 where a: "a = (sel, st1)" by (cases a)
      show ?thesis
      proof (cases "peek_v st1 0 = Some (js ''='')")
        case eq: True
        show ?thesis
        proof (cases "peek_v (snd (eat st1)) 0 = Some (js ''{'')")
          case True
          show ?thesis
          proof (cases "parseBlock f e sel (snd (eat st1))")
            case None
            with less.prems ne Some a eq True f show ?thesis by simp
          next
            case (Some b)
            obtain ps children st2 left where b: "b = ((ps, children), st2, left)"
              by (cases b) auto
            have "parse (min f left) e st2 (push_block sel ps children rules)
                    = Some (rules', st')"
              using less.prems(1) ne \<open>top_selector st = Some a\<close> a eq True Some b f by simp
            from ih [OF this _ push_block_visible [OF less.prems(2)]]
            show ?thesis by simp
          qed
        next
          case False
          with less.prems ne Some a eq f ih [of f "snd (eat st1)" rules] show ?thesis by simp
        qed
      next
        case False
        with less.prems ne Some a f ih [of f st1 rules] show ?thesis by simp
      qed
    qed
  qed
qed

lemma parseColor_args_run:
  assumes "tokens st = xs @ args @ rp # post" and "pos st = length xs"
    and "tok_v rp = js '')''" and "list_all (\<lambda>a. tok_v a \<noteq> js '')'') args"
  shows "snd (parseColor_args st acc) = st\<lparr>pos := length xs + length args\<rparr>"
  using assms
proof (induction args arbitrary: xs st acc)
  case Nil
  then have "peek_v st 0 = Some (js '')'')" by (simp add: peek_v_def peek_def)
  then have "parseColor_args st acc = (acc, st)" by (subst parseColor_args.simps) simp
  moreover have "st\<lparr>pos := length xs\<rparr> = st" using Nil.prems(2) by simp
  ultimately show ?case by simp
next
  case (Cons a args)
  let ?st1 = "snd (eat st)"
  have pk: "peek st 0 = Some a" using Cons.prems(1,2) by (simp add: peek_def nth_append)
  have ne: "\<not> (eof st \<or> peek_v st 0 = Some (js '')''))"
    using Cons.prems pk by (simp add: eof_def peek_v_def)
  have t1: "tokens ?st1 = (xs @ [a]) @ args @ rp # post" using Cons.prems(1) by simp
  have p1: "pos ?st1 = length (xs @ [a])" using Cons.prems(2) by simp
  have la: "list_all (\<lambda>a. tok_v a \<noteq> js '')'') args" using Cons.prems(4) by simp
  have ih: "snd (parseColor_args ?st1 acc') = ?st1\<lparr>pos := length (xs @ [a]) + length args\<rparr>"
    for acc'
    by (rule Cons.IH [OF t1 p1 Cons.prems(3) la])
  have "snd (parseColor_args st acc) = ?st1\<lparr>pos := length (xs @ [a]) + length args\<rparr>"
    using ne pk ih by (subst parseColor_args.simps) (simp add: eat_def)
  then show ?case by (simp add: eat_def)
qed

lemma pseudo_names_not_inherited:
  "list_all (\<lambda>k. \<not> inherited k) (PSEUDO_CLASS @ PSEUDO_ELEMENT)"
  by (simp add: inherited_def PSEUDO_CLASS_def PSEUDO_ELEMENT_def
      Object_prototype_functions_def js_def)

lemma isPseudo_not_inherited: "isPseudo key \<Longrightarrow> \<not> inherited key"
  using pseudo_names_not_inherited by (auto simp: isPseudo_def list_all_iff)

lemma GetSubstitution_plain: "36 \<notin> set template \<Longrightarrow> GetSubstitution m f b template = template"
  by (induction m f b template rule: GetSubstitution.induct) auto

lemma replace_amp_plain:
  "36 \<notin> set parent \<Longrightarrow>
     replace_amp parent front child = concat (map (\<lambda>c. if c = 38 then parent else [c]) child)"
  by (induction child arbitrary: front) (simp_all add: GetSubstitution_plain)

lemma resolveSelector_plain:
  assumes "36 \<notin> set parent"
  shows "resolveSelector parent child =
           (if 38 \<in> set child then concat (map (\<lambda>c. if c = 38 then parent else [c]) child)
            else if take 1 child = js '':'' then parent @ child
            else parent @ js '' '' @ child)"
  using assms by (simp add: resolveSelector_def replace_amp_plain)

section \<open>Evaluation\<close>

text \<open>
  The equations that evaluate the model on a concrete input by rewriting. A numeral of
  steps is unfolded by the equations below, one step at a time.
\<close>

lemmas parse_numeral = parse.simps(2) [of "pred_numeral k" for k, folded numeral_eq_Suc]

lemmas parseBlock_numeral = parseBlock.simps(2) [of "pred_numeral k" for k, folded numeral_eq_Suc]

lemmas parseBlock_loop_numeral =
  parseBlock_loop.simps(2) [of "pred_numeral k" for k, folded numeral_eq_Suc]

lemma replicate_numeral: "replicate (numeral k) x = x # replicate (pred_numeral k) x"
  by (simp add: numeral_eq_Suc)

lemmas string_defs =
  js_def is_space_def is_digit_def is_alpha_def is_hex_digit_def is_number_char_def
  is_unit_char_def is_ident_start_def is_ident_char_def is_not_newline_def test_def
  join_def trim_def hyphenate_def padStart_def show_nat.simps replicate_numeral

lemmas tokenizer_defs =
  Tok_def ch_def number_start_def skip_sign_def tokenize.simps

lemmas selector_defs =
  PSEUDO_CLASS_def PSEUDO_ELEMENT_def PSEUDO_NAME_MAP_def Object_prototype_functions_def
  inherited_def PSEUDO_NAME_MAP_get_def isPseudo_def pseudoSelector_def resolveSelector_def

lemmas parser_defs =
  peek_def peek_v_def peek_t_def eat_def eof_def expect_message_def expect_def eat_comma_def
  tokenToValuePiece_def shouldStopValue_def arg_text_def arg_at_def channel_at_def
  parseColor_args.simps color_value_def parseColor_def steps_parseColor_args.simps
  steps_parseColor_def steps_parseValue_loop.simps steps_parseValue_def
  steps_parseFunctionBlock_loop.simps steps_parseFunctionBlock_def wordLike_def wordLike_opt_def
  isMathOperator_def needsSpace_def append_piece_def update_depth_def parseValue_loop.simps
  parseValue_def push_decl_def parseFunctionBlock_loop.simps parseFunctionBlock_def
  bracket_selector_def push_block_def top_selector_def parse_numeral parseBlock_numeral
  parseBlock_loop_numeral emit_decls_def emit_def new_Parser_def steps_def compileLuaCSS_def Let_def

section \<open>The claims\<close>

text \<open>
  C1. For every input the compile operation returns one of three shapes: with at least
  one rule, the rendered rules and the diagnostics; with no rule and a diagnostic, no
  stylesheet and the diagnostics; with no rule and no diagnostic, the empty stylesheet.
\<close>

theorem compile_shapes:
  "\<exists>rules st. parse (steps (new_Parser src)) e (new_Parser src) [] = Some (rules, st)
     \<and> compileLuaCSS e src =
         Some (if rules \<noteq> [] then \<lparr>css = Some (emit rules), css_errors = errors st\<rparr>
               else if errors st \<noteq> [] then \<lparr>css = None, css_errors = errors st\<rparr>
               else \<lparr>css = Some [], css_errors = []\<rparr>)"
proof -
  have "3 * remaining (new_Parser src) + 1 \<le> steps (new_Parser src)"
    by (simp add: steps_def remaining_def)
  from parse_total [OF this, of e "[]"] obtain rules st where
    r: "parse (steps (new_Parser src)) e (new_Parser src) [] = Some (rules, st)"
    by blast
  then show ?thesis by (auto simp: compileLuaCSS_def emit_Nil)
qed

text \<open>
  C2. The end-to-end example of the specification: the stylesheet it gives, and no
  diagnostic, whatever the environment.
\<close>

theorem end_to_end_example:
  "compileLuaCSS e (js ''body = { opacity = 0.8, background = color.hex(\"#fff\") }'') =
     Some \<lparr>css = Some (js ''body {'' @ [10] @ js ''  opacity: 0.8;'' @ [10]
                          @ js ''  background: #fff;'' @ [10] @ js ''}''),
           css_errors = []\<rparr>"
  by (simp add: string_defs tokenizer_defs selector_defs parser_defs cong: let_weak_cong)

text \<open>
  C3. A bare hex literal is rendered as \<^verbatim>\<open>#\<close> and its digits, padded on the left with
  zeros to six. The digits keep their case: \<^verbatim>\<open>0xA1B2C3\<close> gives \<^verbatim>\<open>#A1B2C3\<close> and
  \<^verbatim>\<open>0xFFF\<close> gives \<^verbatim>\<open>#000FFF\<close>, where the header of the source promises \<^verbatim>\<open>#rrggbb\<close>.
\<close>

theorem hex_literal_keeps_case:
  "compileLuaCSS e (js ''a = { c = 0xA1B2C3, d = 0xFFF }'') =
     Some \<lparr>css = Some (js ''a {'' @ [10] @ js ''  c: #A1B2C3;'' @ [10]
                          @ js ''  d: #000FFF;'' @ [10] @ js ''}''),
           css_errors = []\<rparr>"
  by (simp add: string_defs tokenizer_defs selector_defs parser_defs cong: let_weak_cong)

text \<open>
  C4. Flattening is a depth-first pre-order walk: \<^verbatim>\<open>collectChildren\<close> appends to the rules
  what the walk of the specification gives for the children, in their order, and the
  top-level driver appends the walk of the block itself, so a block with declarations
  comes before the rules of its children and a block without declarations contributes
  only the rules of its children.
\<close>

theorem flatten_preorder:
  "collectChildren children rules = rules @ concat (map flatten_spec children)
   \<and> push_block sel ps children rules = rules @ flatten_spec (Node sel ps children)"
  by (simp add: push_block_def collectChildren_flatten)

lemma flattening_order_example:
  assumes "ps \<noteq> []" and "cps \<noteq> []"
  shows "push_block sel ps [Node csel cps []] [] =
           [\<lparr>selector = sel, props = ps\<rparr>, \<lparr>selector = csel, props = cps\<rparr>]"
  using assms by (simp add: push_block_def)

text \<open>
  C5. \<^verbatim>\<open>resolveSelector\<close> replaces \<^verbatim>\<open>&\<close> through \<^verbatim>\<open>String.prototype.replace\<close>, which reads
  the parent as a replacement template: a parent \<^verbatim>\<open>a$$b\<close> is inserted as \<^verbatim>\<open>a$b\<close>. For a
  parent without a dollar sign the function is as the claim says (lemma
  \<open>resolveSelector_plain\<close>), and the three examples of the claim hold.
\<close>

theorem resolveSelector_dollar:
  "resolveSelector (js ''a$$b'') (js ''&'') = js ''a$b''"
  by (simp add: string_defs selector_defs)

lemma resolveSelector_examples:
  "resolveSelector (js ''h1'') (js ''span'') = js ''h1 span''
   \<and> resolveSelector (js ''.card'') (js ''&:nth-child(2)'') = js ''.card:nth-child(2)''
   \<and> resolveSelector (js ''a'') (js '':not(.x)'') = js ''a:not(.x)''"
  by (simp add: string_defs selector_defs)

lemma nested_selector_dollar:
  "compileLuaCSS e (js ''[\"a$$b\"] = { [\"&:hover\"] = { c = 1 } }'') =
     Some \<lparr>css = Some (js ''a$b:hover {'' @ [10] @ js ''  c: 1;'' @ [10] @ js ''}''),
           css_errors = []\<rparr>"
  by (simp add: string_defs tokenizer_defs selector_defs parser_defs cong: let_weak_cong)

text \<open>
  C6. For every parent and every key that the code passes, \<^verbatim>\<open>pseudoSelector\<close> returns the
  parent, the prefix and the css name: the entry of the name map when there is one and the
  key otherwise, after \<^verbatim>\<open>::\<close> when the key is a pseudo-element and \<^verbatim>\<open>:\<close> otherwise. The
  only call is guarded by \<^verbatim>\<open>isPseudo\<close>, and the equation holds for every key for which
  \<^verbatim>\<open>isPseudo\<close> holds, and beyond these for every key that is not one of the twelve names a
  plain object inherits from \<^verbatim>\<open>Object.prototype\<close>. The examples of the claim follow, and
  the prefix of \<^verbatim>\<open>placeholder\<close>, which is in both sets, is \<^verbatim>\<open>::\<close>.
\<close>

theorem pseudoSelector_result:
  "(isPseudo key \<or> \<not> inherited key \<longrightarrow>
      pseudoSelector e parent key =
        parent @ (if key \<in> set PSEUDO_ELEMENT then js ''::'' else js '':'')
          @ (case map_of PSEUDO_NAME_MAP key of Some cssName \<Rightarrow> cssName | None \<Rightarrow> key))
   \<and> pseudoSelector e (js ''button'') (js ''hover'') = js ''button:hover''
   \<and> pseudoSelector e (js ''p'') (js ''before'') = js ''p::before''
   \<and> pseudoSelector e (js ''li'') (js ''nth_child'') = js ''li:nth-child''
   \<and> pseudoSelector e parent (js ''placeholder'') = parent @ js ''::placeholder''"
proof -
  have "pseudoSelector e parent key =
        parent @ (if key \<in> set PSEUDO_ELEMENT then js ''::'' else js '':'')
          @ (case map_of PSEUDO_NAME_MAP key of Some cssName \<Rightarrow> cssName | None \<Rightarrow> key)"
    if "isPseudo key \<or> \<not> inherited key"
  proof -
    from that have "\<not> inherited key" using isPseudo_not_inherited by blast
    then show ?thesis
      by (simp add: pseudoSelector_def PSEUDO_NAME_MAP_get_def inherited_def Let_def
          split: option.split)
  qed
  moreover have "pseudoSelector e (js ''button'') (js ''hover'') = js ''button:hover''
     \<and> pseudoSelector e (js ''p'') (js ''before'') = js ''p::before''
     \<and> pseudoSelector e (js ''li'') (js ''nth_child'') = js ''li:nth-child''
     \<and> pseudoSelector e parent (js ''placeholder'') = parent @ js ''::placeholder''"
    by (simp add: string_defs selector_defs)
  ultimately show ?thesis by blast
qed

text \<open>The theorem at the key \<^verbatim>\<open>nth_child\<close>, which the parser passes.\<close>

theorem pseudoSelector_result_witness:
  "isPseudo (js ''nth_child'')
   \<and> pseudoSelector example_env (js ''li'') (js ''nth_child'') = js ''li'' @ js '':'' @ js ''nth-child''"
proof -
  have h: "isPseudo (js ''nth_child'')" by (simp add: string_defs selector_defs)
  have "pseudoSelector example_env (js ''li'') (js ''nth_child'')
          = js ''li'' @ js '':'' @ js ''nth-child''"
    using pseudoSelector_result [of "js ''nth_child''" example_env "js ''li''"] h
    by (simp add: string_defs selector_defs)
  with h show ?thesis by simp
qed

text \<open>
  Outside the keys the code passes: \<^verbatim>\<open>PSEUDO_NAME_MAP\<close> is an object literal, so on a
  direct call with the key \<^verbatim>\<open>__proto__\<close> the lookup finds the prototype of the object,
  and the css name is its text. No input of the compile operation leads there
  (\<open>isPseudo_not_inherited\<close>).
\<close>

lemma pseudoSelector_inherited_key:
  "pseudoSelector e (js ''p'') (js ''__proto__'') = js ''p:[object Object]''"
  by (simp add: string_defs selector_defs)

text \<open>
  C8. A color constructor call \<^verbatim>\<open>color.f(args)\<close> whose function name is not one of
  \<^verbatim>\<open>hex\<close>, \<^verbatim>\<open>rgb\<close>, \<^verbatim>\<open>rgba\<close>, \<^verbatim>\<open>hsl\<close>, \<^verbatim>\<open>hsla\<close>, \<^verbatim>\<open>color3\<close> records exactly one
  diagnostic, has the value \<^verbatim>\<open>#000000\<close>, and leaves the parser after the closing
  parenthesis of the call, from where parsing goes on.
\<close>

theorem unknown_color_function:
  assumes toks: "tokens st = pre @ [c, dot, f, lp] @ args @ rp # post"
    and at: "pos st = length pre"
    and color: "tok_t c = IDENT" "tok_v c = js ''color''"
    and call: "tok_v dot = js ''.''" "tok_v lp = js ''(''" "tok_v rp = js '')''"
    and inner: "list_all (\<lambda>a. tok_v a \<noteq> js '')'') args"
    and unknown: "tok_v f \<notin> set (map js [''hex'', ''rgb'', ''rgba'', ''hsl'', ''hsla'', ''color3''])"
  shows "parseValue e st =
           (js ''#000000'',
            st\<lparr>pos := length pre + length args + 5,
               errors := errors st @ [js ''Unknown color function: color.'' @ tok_v f]\<rparr>)"
proof -
  let ?st1 = "snd (eat st)"
  let ?st2 = "snd (expect (js ''.'') ?st1)"
  let ?st3 = "snd (eat ?st2)"
  let ?st4 = "snd (expect (js ''('') ?st3)"
  have n0: "peek st 0 = Some c" and n1: "peek st 1 = Some dot"
    using toks at by (simp_all add: peek_def nth_append)
  have s1: "?st1 = st\<lparr>pos := length pre + 1\<rparr>" using at by (simp add: eat_def)
  have "peek ?st1 0 = Some dot" using toks at by (simp add: eat_def peek_def nth_append)
  then have s2: "?st2 = st\<lparr>pos := length pre + 2\<rparr>"
    using call(1) at by (simp add: expect_def eat_def)
  have k2: "peek ?st2 0 = Some f" using toks by (simp only: s2) (simp add: peek_def nth_append)
  then have fn: "fst (eat ?st2) = Some f" by (simp add: eat_def)
  have s3: "?st3 = st\<lparr>pos := length pre + 3\<rparr>" by (simp only: s2) (simp add: eat_def)
  have "peek ?st3 0 = Some lp" using toks by (simp only: s3) (simp add: peek_def nth_append)
  then have s4: "?st4 = st\<lparr>pos := length pre + 4\<rparr>"
    using call(2) by (simp only: s3) (simp add: expect_def eat_def)
  have t4: "tokens ?st4 = (pre @ [c, dot, f, lp]) @ args @ rp # post"
    using toks by (simp only: s4) simp
  have p4: "pos ?st4 = length (pre @ [c, dot, f, lp])" by (simp only: s4) simp
  let ?st5 = "snd (parseColor_args ?st4 [])"
  have s5: "?st5 = st\<lparr>pos := length pre + 4 + length args\<rparr>"
    using parseColor_args_run [OF t4 p4 call(3) inner, of "[]"] by (simp only: s4) simp
  have "peek ?st5 0 = Some rp"
    using toks by (simp only: s5) (simp add: peek_def nth_append)
  then have s6: "snd (expect (js '')'') ?st5) = st\<lparr>pos := length pre + length args + 5\<rparr>"
    using call(3) by (simp only: s5) (simp add: expect_def eat_def)
  have other: "tok_v f \<noteq> js ''hex''" "tok_v f \<noteq> js ''rgb''" "tok_v f \<noteq> js ''rgba''"
    "tok_v f \<noteq> js ''hsl''" "tok_v f \<noteq> js ''hsla''" "tok_v f \<noteq> js ''color3''"
    using unknown by simp_all
  have "parseColor e st =
          (js ''#000000'',
           st\<lparr>pos := length pre + length args + 5,
              errors := errors st @ [js ''Unknown color function: color.'' @ tok_v f]\<rparr>)"
    unfolding parseColor_def Let_def s6 fn
    by (simp add: color_value_def other)
  moreover have "parseValue e st = parseColor e st"
    using n0 n1 color call(1) by (simp add: parseValue_def peek_v_def)
  ultimately show ?thesis by simp
qed

text \<open>The theorem at the tokens of \<^verbatim>\<open>x = color.foo(1) }\<close>, from the value on.\<close>

theorem unknown_color_function_witness:
  "parseValue example_env
     \<lparr>tokens = [Tok IDENT (js ''x''), Tok PUNCT (js ''=''), Tok IDENT (js ''color''),
                 Tok PUNCT (js ''.''), Tok IDENT (js ''foo''), Tok PUNCT (js ''(''),
                 \<lparr>tok_t = NUMBER, tok_v = js ''1'', tok_unit = Some []\<rparr>,
                 Tok PUNCT (js '')''), Tok PUNCT (js ''}'')],
      pos = 2, errors = []\<rparr> =
     (js ''#000000'',
      \<lparr>tokens = [Tok IDENT (js ''x''), Tok PUNCT (js ''=''), Tok IDENT (js ''color''),
                 Tok PUNCT (js ''.''), Tok IDENT (js ''foo''), Tok PUNCT (js ''(''),
                 \<lparr>tok_t = NUMBER, tok_v = js ''1'', tok_unit = Some []\<rparr>,
                 Tok PUNCT (js '')''), Tok PUNCT (js ''}'')],
       pos = 8, errors = [js ''Unknown color function: color.foo'']\<rparr>)"
  using unknown_color_function
    [of "\<lparr>tokens = [Tok IDENT (js ''x''), Tok PUNCT (js ''=''), Tok IDENT (js ''color''),
                 Tok PUNCT (js ''.''), Tok IDENT (js ''foo''), Tok PUNCT (js ''(''),
                 \<lparr>tok_t = NUMBER, tok_v = js ''1'', tok_unit = Some []\<rparr>,
                 Tok PUNCT (js '')''), Tok PUNCT (js ''}'')],
         pos = 2, errors = []\<rparr>"
        "[Tok IDENT (js ''x''), Tok PUNCT (js ''='')]"
        "Tok IDENT (js ''color'')" "Tok PUNCT (js ''.'')" "Tok IDENT (js ''foo'')"
        "Tok PUNCT (js ''('')" "[\<lparr>tok_t = NUMBER, tok_v = js ''1'', tok_unit = Some []\<rparr>]"
        "Tok PUNCT (js '')'')" "[Tok PUNCT (js ''}'')]" example_env]
  by (simp add: Tok_def js_def)


text \<open>
  C10. Every rule of the final list has declarations, so its block in the stylesheet has
  at least one declaration line.
\<close>

theorem rules_have_declarations:
  assumes "parse fuel e (new_Parser src) [] = Some (rules, st)"
  shows "list_all (\<lambda>r. props r \<noteq> [] \<and> emit_decls (props r) \<noteq> []) rules"
proof -
  have "list_all visible rules" using parse_visible [OF assms] by simp
  then show ?thesis by (simp add: visible_def [abs_def])
qed

text \<open>The theorem at the input \<^verbatim>\<open>a={b=1}\<close>.\<close>

theorem rules_have_declarations_witness:
  "\<exists>st. parse 22 example_env (new_Parser (js ''a={b=1}'')) [] =
          Some ([\<lparr>selector = js ''a'',
                   props = [\<lparr>decl_prop = js ''b'', decl_value = js ''1''\<rparr>]\<rparr>], st)
        \<and> list_all (\<lambda>r. props r \<noteq> [] \<and> emit_decls (props r) \<noteq> [])
             [\<lparr>selector = js ''a'', props = [\<lparr>decl_prop = js ''b'', decl_value = js ''1''\<rparr>]\<rparr>]"
proof -
  obtain st where
    h: "parse 22 example_env (new_Parser (js ''a={b=1}'')) [] =
          Some ([\<lparr>selector = js ''a'',
                   props = [\<lparr>decl_prop = js ''b'', decl_value = js ''1''\<rparr>]\<rparr>], st)"
    by (simp add: string_defs tokenizer_defs selector_defs parser_defs cong: let_weak_cong)
  from rules_have_declarations [OF h] h show ?thesis by blast
qed

end
